theory Spec2Isabelle
  imports Main "HOL-Library.Word" "HOL-Library.Char_ord" "HOL-Library.List_Lexorder"
    "HOL-Library.Sublist"
begin

section \<open>Regular expressions as the source writes them\<close>

text \<open>
  The filter of \<^verbatim>\<open>filter_consensus_logs.py\<close> is driven by four compiled patterns
  (\<^verbatim>\<open>LINE_RE\<close>, \<^verbatim>\<open>JSON_RE\<close>, \<^verbatim>\<open>KW_RE\<close>, \<^verbatim>\<open>NODE_FROM_FILENAME_RE\<close>).  They are embedded
  as values of a small regular-expression datatype and run by a backtracking matcher
  that lists every way the pattern can match, most preferred first, as Python's
  \<^verbatim>\<open>re\<close> explores them: the left alternative before the right one, a greedy
  repetition from the longest run down, a lazy one from the shortest run up.  The first
  element of the list is the match Python reports.

  A Python \<^verbatim>\<open>str\<close> is modelled as a \<^typ>\<open>string\<close> whose characters are the code
  points 0 to 255.  On that range \<^verbatim>\<open>\d\<close> is the ten ASCII digits and \<^verbatim>\<open>\s\<close> is the
  twelve characters of \<open>is_space\<close> below.
\<close>

type_synonym groups = "string \<rightharpoonup> string"

text \<open>A matcher state: characters consumed so far, the rest of the subject, the groups.\<close>

type_synonym mstate = "nat \<times> string \<times> groups"

datatype regex =
    Eps
  | Chr "char \<Rightarrow> bool"
  | Cat regex regex
  | Alt regex regex
  | Rep "char \<Rightarrow> bool" nat "nat option" bool
  | Group string regex
  | Bol
  | Eol

text \<open>
  \<open>reps p lo hi s\<close>: the rests of \<open>s\<close> after a run of \<open>k\<close> characters of class \<open>p\<close>,
  for every admissible \<open>k\<close> between \<open>lo\<close> and \<open>hi\<close>, shortest run first.
\<close>

fun reps :: "(char \<Rightarrow> bool) \<Rightarrow> nat \<Rightarrow> nat option \<Rightarrow> string \<Rightarrow> string list" where
  "reps p lo hi [] = (if lo = 0 then [[]] else [])"
| "reps p lo hi (c # t) =
     (if lo = 0 then [c # t] else []) @
     (if p c \<and> hi \<noteq> Some 0 then reps p (lo - 1) (map_option (\<lambda>h. h - 1) hi) t else [])"

primrec ms :: "regex \<Rightarrow> mstate \<Rightarrow> mstate list" where
  "ms Eps st = [st]"
| "ms (Chr p) st =
     (case st of (i, s, g) \<Rightarrow>
        (case s of [] \<Rightarrow> [] | c # t \<Rightarrow> if p c then [(Suc i, t, g)] else []))"
| "ms (Cat a b) st = concat (map (ms b) (ms a st))"
| "ms (Alt a b) st = ms a st @ ms b st"
| "ms (Rep p lo hi greedy) st =
     (case st of (i, s, g) \<Rightarrow>
        map (\<lambda>t. (i + (length s - length t), t, g))
          (if greedy then rev (reps p lo hi s) else reps p lo hi s))"
| "ms (Group n a) st =
     (case st of (i, s, g) \<Rightarrow>
        map (\<lambda>(j, t, g'). (j, t, g'(n \<mapsto> take (j - i) s))) (ms a st))"
| "ms Bol st = (case st of (i, s, g) \<Rightarrow> if i = 0 then [st] else [])"
| "ms Eol st = (case st of (i, s, g) \<Rightarrow> if s = [] \<or> s = [CHR 0x0A] then [st] else [])"

text \<open>\<^verbatim>\<open>pattern.match(s)\<close>: the preferred match starting at the first character.\<close>

definition re_match :: "regex \<Rightarrow> string \<Rightarrow> groups option" where
  "re_match r s = (case ms r (0, s, Map.empty) of [] \<Rightarrow> None | (j, t, g) # _ \<Rightarrow> Some g)"

text \<open>\<^verbatim>\<open>pattern.search(s)\<close>: the preferred match at the leftmost position that has one.\<close>

fun search_from :: "regex \<Rightarrow> nat \<Rightarrow> string \<Rightarrow> groups option" where
  "search_from r i [] =
     (case ms r (i, [], Map.empty) of [] \<Rightarrow> None | (j, t, g) # _ \<Rightarrow> Some g)"
| "search_from r i (c # s) =
     (case ms r (i, c # s, Map.empty) of
        [] \<Rightarrow> search_from r (Suc i) s
      | (j, t, g) # _ \<Rightarrow> Some g)"

definition re_search :: "regex \<Rightarrow> string \<Rightarrow> groups option" where
  "re_search r s = search_from r 0 s"

fun rx_seq :: "regex list \<Rightarrow> regex" where
  "rx_seq [] = Eps"
| "rx_seq [r] = r"
| "rx_seq (r # rs) = Cat r (rx_seq rs)"

fun rx_alts :: "regex list \<Rightarrow> regex" where
  "rx_alts [] = Chr (\<lambda>c. False)"
| "rx_alts [r] = r"
| "rx_alts (r # rs) = Alt r (rx_alts rs)"

definition lit :: "char \<Rightarrow> regex" where
  "lit c = Chr (\<lambda>x. x = c)"

text \<open>\<^verbatim>\<open>re.escape(k)\<close> as a pattern: the characters of \<open>k\<close>, each standing for itself.\<close>

definition lit_str :: "string \<Rightarrow> regex" where
  "lit_str k = rx_seq (map lit k)"

definition lower_ascii :: "char \<Rightarrow> char" where
  "lower_ascii c =
     (case map_of (zip ''ABCDEFGHIJKLMNOPQRSTUVWXYZ'' ''abcdefghijklmnopqrstuvwxyz'') c of
        None \<Rightarrow> c | Some l \<Rightarrow> l)"

definition upper_ascii :: "char \<Rightarrow> char" where
  "upper_ascii c =
     (case map_of (zip ''abcdefghijklmnopqrstuvwxyz'' ''ABCDEFGHIJKLMNOPQRSTUVWXYZ'') c of
        None \<Rightarrow> c | Some u \<Rightarrow> u)"

text \<open>A literal under \<^verbatim>\<open>re.IGNORECASE\<close>.\<close>

definition lit_ci :: "string \<Rightarrow> regex" where
  "lit_ci k = rx_seq (map (\<lambda>c. Chr (\<lambda>x. lower_ascii x = lower_ascii c)) k)"

definition is_digit :: "char \<Rightarrow> bool" where
  "is_digit c = (c \<in> set ''0123456789'')"

definition is_space :: "char \<Rightarrow> bool" where
  "is_space c = (c \<in> set [CHR 0x09, CHR 0x0A, CHR 0x0B, CHR 0x0C, CHR 0x0D,
                            CHR 0x1C, CHR 0x1D, CHR 0x1E, CHR 0x1F, CHR 0x20,
                            CHR 0x85, CHR 0xA0])"

definition is_upper :: "char \<Rightarrow> bool" where
  "is_upper c = (c \<in> set ''ABCDEFGHIJKLMNOPQRSTUVWXYZ'')"

text \<open>The class of \<^verbatim>\<open>.\<close>: everything but the newline.\<close>

definition not_nl :: "char \<Rightarrow> bool" where
  "not_nl c = (c \<noteq> CHR 0x0A)"

text \<open>The class \<^verbatim>\<open>[0-9:.]\<close> of the timestamp's time part.\<close>

definition is_time_char :: "char \<Rightarrow> bool" where
  "is_time_char c = (c \<in> set ''0123456789:.'')"

text \<open>\<^verbatim>\<open>X+\<close>, greedy.\<close>

definition many1 :: "(char \<Rightarrow> bool) \<Rightarrow> regex" where
  "many1 p = Rep p 1 None True"

subsection \<open>The four patterns\<close>

text \<open>
  \<^verbatim>\<open>
  LINE_RE = re.compile(
      r"^(?P<ts>\d{4}-\d{2}-\d{2}T[0-9:.]+Z)\s+"
      r"\[(?P<thr>[^\]]+)\]\s+"
      r"(?P<level>[A-Z]+)\s+"
      r"(?P<target>\S+?):(?P<line>\d+)\s+"
      r"(?P<msg>.*)$")
  \<close>
\<close>

definition TS_RE :: regex where
  "TS_RE = rx_seq
     [Rep is_digit 4 (Some 4) True, lit CHR ''-'',
      Rep is_digit 2 (Some 2) True, lit CHR ''-'',
      Rep is_digit 2 (Some 2) True, lit CHR ''T'',
      many1 is_time_char, lit CHR ''Z'']"

definition LINE_RE :: regex where
  "LINE_RE = rx_seq
     [Bol,
      Group ''ts'' TS_RE, many1 is_space,
      lit CHR ''['', Group ''thr'' (many1 (\<lambda>c. c \<noteq> CHR '']'')), lit CHR '']'', many1 is_space,
      Group ''level'' (many1 is_upper), many1 is_space,
      Group ''target'' (Rep (\<lambda>c. \<not> is_space c) 1 None False), lit CHR '':'',
      Group ''line'' (many1 is_digit), many1 is_space,
      Group ''msg'' (Rep not_nl 0 None True),
      Eol]"

text \<open>\<^verbatim>\<open>JSON_RE = re.compile(r"(\{.*\})")\<close>\<close>

definition JSON_RE :: regex where
  "JSON_RE = Group ''1'' (rx_seq [lit CHR ''{'', Rep not_nl 0 None True, lit CHR ''}''])"

definition EVENT_KEYWORDS :: "string list" where
  "EVENT_KEYWORDS =
     [''NewEpoch'', ''NewRound'', ''CommitViaBlock'',
      ''Timeout'', ''RoundTimeout'', ''ReceiveRoundTimeout'',
      ''Vote'', ''VoteNIL'',
      ''Propose'', ''OptPropose'',
      ''ReceiveProposal'', ''ReceiveOptProposal'', ''ProcessOptProposal'',
      ''ReceiveSyncInfo'', ''SyncInfo'', ''ReceiveNewCertificate'',
      ''NetworkReceiveProposal'', ''NetworkReceiveOptProposal'', ''NetworkReceiveSyncInfo'',
      ''Broadcast'', ''BroadcastOrderVote'', ''BroadcastRandShareFastPath'',
      ''ReceiveOrderVote'', ''OrderVote'', ''ReceiveVote'',
      ''Signed ledger info'', ''Receive commit vote'', ''Receive ordered block'',
      ''leader'', ''Leader'', ''proposer'', ''Proposer'', ''proposer_election'',
      ''rotating_proposer'',
      ''pacemaker'', ''Pacemaker'']"

text \<open>\<^verbatim>\<open>KW_RE = re.compile("|".join(re.escape(k) for k in EVENT_KEYWORDS))\<close>\<close>

definition KW_RE :: regex where
  "KW_RE = rx_alts (map lit_str EVENT_KEYWORDS)"

text \<open>
  \<^verbatim>\<open>NODE_FROM_FILENAME_RE = re.compile(r"^(stdout|stderr)_(\d+)\.log$", re.IGNORECASE)\<close>
\<close>

definition NODE_FROM_FILENAME_RE :: regex where
  "NODE_FROM_FILENAME_RE = rx_seq
     [Bol, Group ''1'' (Alt (lit_ci ''stdout'') (lit_ci ''stderr'')), lit CHR ''_'',
      Group ''2'' (many1 is_digit), lit_ci ''.log'', Eol]"

section \<open>Decoded payloads and records\<close>

text \<open>
  A value as \<^verbatim>\<open>json.loads\<close> returns it.  Python's \<^verbatim>\<open>None\<close> is \<open>JNull\<close>, a \<^verbatim>\<open>dict\<close> is
  an association list in insertion order.  The decoder and the encoder are library code:
  every function below takes them as the parameters
  \<open>loads :: string \<Rightarrow> json option\<close> (\<open>None\<close> when \<^verbatim>\<open>json.JSONDecodeError\<close> is raised) and
  \<open>dumps :: json \<Rightarrow> string\<close>.
\<close>

datatype json =
    JNull
  | JBool bool
  | JInt int
  | JFloat "64 word"
  | JStr string
  | JList "json list"
  | JDict "(string \<times> json) list"

type_synonym pydict = "(string \<times> json) list"

text \<open>\<^verbatim>\<open>d[k] = v\<close>: replaces the value of a present key in place, appends a new key.\<close>

fun dict_set :: "pydict \<Rightarrow> string \<Rightarrow> json \<Rightarrow> pydict" where
  "dict_set [] k v = [(k, v)]"
| "dict_set ((k', v') # d) k v = (if k' = k then (k, v) # d else (k', v') # dict_set d k v)"

text \<open>\<^verbatim>\<open>d.get(k)\<close>: \<^verbatim>\<open>None\<close> for a missing key.\<close>

definition dict_get :: "pydict \<Rightarrow> string \<Rightarrow> json" where
  "dict_get d k = (case map_of d k of None \<Rightarrow> JNull | Some v \<Rightarrow> v)"

definition dict_has :: "pydict \<Rightarrow> string \<Rightarrow> bool" where
  "dict_has d k = (map_of d k \<noteq> None)"

definition is_dict :: "json \<Rightarrow> bool" where
  "is_dict j = (case j of JDict d \<Rightarrow> True | _ \<Rightarrow> False)"

definition is_str :: "json \<Rightarrow> bool" where
  "is_str j = (case j of JStr s \<Rightarrow> True | _ \<Rightarrow> False)"

definition items :: "json \<Rightarrow> pydict" where
  "items j = (case j of JDict d \<Rightarrow> d | _ \<Rightarrow> [])"

text \<open>The text of a string value; the records below only ever hold strings where it is used.\<close>

definition str_of :: "json \<Rightarrow> string" where
  "str_of j = (case j of JStr s \<Rightarrow> s | _ \<Rightarrow> [])"

text \<open>\<^verbatim>\<open>m.groupdict()[n]\<close>.\<close>

definition grp :: "groups \<Rightarrow> string \<Rightarrow> string" where
  "grp g n = (case g n of None \<Rightarrow> [] | Some v \<Rightarrow> v)"

text \<open>\<^verbatim>\<open>line.rstrip("\n")\<close>\<close>

definition rstrip_nl :: "string \<Rightarrow> string" where
  "rstrip_nl s = rev (dropWhile (\<lambda>c. c = CHR 0x0A) (rev s))"

text \<open>
  \<^verbatim>\<open>int(s)\<close> on a string of decimal digits, as a natural number of any size (the limit
  that recent interpreters put on the number of digits is not modelled).
\<close>

definition digit_val :: "char \<Rightarrow> nat" where
  "digit_val c = (case map_of (zip ''0123456789'' [0, 1, 2, 3, 4, 5, 6, 7, 8, 9]) c of
                    None \<Rightarrow> 0 | Some d \<Rightarrow> d)"

definition int_of_digits :: "string \<Rightarrow> nat" where
  "int_of_digits s = foldl (\<lambda>a c. 10 * a + digit_val c) 0 s"

text \<open>\<^verbatim>\<open>KW_RE.search(s)\<close> used as a truth value.\<close>

definition kw_search :: "string \<Rightarrow> bool" where
  "kw_search s = (re_search KW_RE s \<noteq> None)"

text \<open>\<^verbatim>\<open>JSON_RE.search(msg)\<close> followed by \<^verbatim>\<open>jm.group(1)\<close>.\<close>

definition json_blob :: "string \<Rightarrow> string option" where
  "json_blob msg = (case re_search JSON_RE msg of None \<Rightarrow> None | Some g \<Rightarrow> g ''1'')"

text \<open>
  Lines 139 to 147 of \<^verbatim>\<open>parse_line\<close>: the payload, \<open>JNull\<close> when the message has no
  brace-delimited part or the decoder rejects it.
\<close>

definition payload_of :: "(string \<Rightarrow> json option) \<Rightarrow> string \<Rightarrow> json" where
  "payload_of loads msg =
     (case json_blob msg of
        None \<Rightarrow> JNull
      | Some blob \<Rightarrow> (case loads blob of None \<Rightarrow> JNull | Some p \<Rightarrow> p))"

text \<open>
  Lines 152 to 161: the pair \<open>(keep, event)\<close> after the two tests.
\<close>

definition decide_keep :: "json \<Rightarrow> string \<Rightarrow> bool \<times> json" where
  "decide_keep payload msg =
     (let (keep, event) =
            (if is_dict payload \<and> dict_has (items payload) ''event''
             then (let event = dict_get (items payload) ''event''
                   in (is_str event \<and> kw_search (str_of event), event))
             else (False, JNull))
      in (if \<not> keep \<and> kw_search msg then True else keep, event))"

definition COMMON_FIELDS :: "string list" where
  "COMMON_FIELDS =
     [''epoch'', ''round'', ''reason'', ''remote_peer'', ''block_round'', ''block_epoch'',
      ''block_author'']"

text \<open>Lines 186 to 189: the loop copying the allow-listed keys.\<close>

fun copy_fields :: "pydict \<Rightarrow> string list \<Rightarrow> pydict \<Rightarrow> pydict" where
  "copy_fields payload [] out = out"
| "copy_fields payload (k # ks) out =
     copy_fields payload ks
       (if dict_has payload k then dict_set out k (dict_get payload k) else out)"

text \<open>Lines 168 to 191: the record that is returned for a kept line.\<close>

definition build_out :: "groups \<Rightarrow> json \<Rightarrow> json \<Rightarrow> pydict" where
  "build_out d payload event0 =
     (let out = [(''ts'', JStr (grp d ''ts'')),
                 (''thread'', JStr (grp d ''thr'')),
                 (''level'', JStr (grp d ''level'')),
                 (''target'', JStr (grp d ''target'')),
                 (''line'', JInt (int (int_of_digits (grp d ''line'')))),
                 (''msg'', JStr (grp d ''msg''))];
          out = (if payload \<noteq> JNull then dict_set out ''json'' payload else out);
          event = (if payload \<noteq> JNull \<and> event0 = JNull \<and> is_dict payload
                   then dict_get (items payload) ''event'' else event0);
          out = (if is_str event then dict_set out ''event'' event else out)
      in if is_dict payload then copy_fields (items payload) COMMON_FIELDS out else out)"

definition parse_line :: "(string \<Rightarrow> json option) \<Rightarrow> string \<Rightarrow> pydict option" where
  "parse_line loads line =
     (case re_match LINE_RE (rstrip_nl line) of
        None \<Rightarrow> None
      | Some d \<Rightarrow>
          (let msg = grp d ''msg'';
               payload = payload_of loads msg;
               (keep, event) = decide_keep payload msg
           in if \<not> keep then None else Some (build_out d payload event)))"


section \<open>The log tree and the discovery of run directories\<close>

text \<open>
  The input side of the file system: a directory is the list of its entries in the order
  the operating system lists them.  A file is the list of the lines that iterating over it
  yields (each with its line end) and a flag telling that opening or reading it raises
  \<^verbatim>\<open>OSError\<close> once those lines have been read; a file that cannot be opened is
  \<open>File [] True\<close>.  Symbolic links and unreadable directories are not modelled.
\<close>

type_synonym path = "string list"

datatype fsnode = File "string list" bool | Dir "(string \<times> fsnode) list"

type_synonym entries = "(string \<times> fsnode) list"

definition path_name :: "path \<Rightarrow> string" where
  "path_name p = (if p = [] then [] else last p)"

fun path_str :: "path \<Rightarrow> string" where
  "path_str [] = []"
| "path_str [n] = n"
| "path_str (n # ns) = n @ ''/'' @ path_str ns"

text \<open>\<^verbatim>\<open>d.iterdir()\<close>\<close>

definition iterdir :: "path \<Rightarrow> entries \<Rightarrow> (path \<times> fsnode) list" where
  "iterdir base es = map (\<lambda>(n, x). (base @ [n], x)) es"

text \<open>
  \<^verbatim>\<open>d.rglob("*")\<close>: every entry below \<open>d\<close>.  The entries of a directory come together, the
  directories below it follow in the order of the listing (the order of \<^verbatim>\<open>pathlib\<close> up to
  Python 3.12).  The theorems below rely on the order only as far as it is a function of
  the tree.
\<close>

fun walk :: "path \<Rightarrow> entries \<Rightarrow> (path \<times> fsnode) list" where
  "walk base [] = []"
| "walk base ((n, File ls bad) # es) = walk base es"
| "walk base ((n, Dir ds) # es) =
     (iterdir (base @ [n]) ds @ walk (base @ [n]) ds) @ walk base es"

definition rglob :: "path \<Rightarrow> entries \<Rightarrow> (path \<times> fsnode) list" where
  "rglob base es = iterdir base es @ walk base es"

text \<open>
  \<^verbatim>\<open>NODE_FROM_FILENAME_RE.match(name)\<close> and, on a match, \<^verbatim>\<open>int(m.group(2))\<close>.
\<close>

definition node_of_name :: "string \<Rightarrow> nat option" where
  "node_of_name n =
     (case re_match NODE_FROM_FILENAME_RE n of
        None \<Rightarrow> None
      | Some g \<Rightarrow> Some (int_of_digits (grp g ''2'')))"

definition is_node_log :: "path \<times> fsnode \<Rightarrow> bool" where
  "is_node_log e =
     (case e of (p, File ls bad) \<Rightarrow> node_of_name (path_name p) \<noteq> None | (p, Dir ds) \<Rightarrow> False)"

definition looks_like_run_dir :: "path \<Rightarrow> entries \<Rightarrow> bool" where
  "looks_like_run_dir d es = list_ex is_node_log (rglob d es)"

text \<open>The two hints, as \<^verbatim>\<open>os.getenv\<close> returns them.\<close>

record hints =
  TEST_NAME :: "string option"
  SCHED_TYPE :: "string option"

definition expected_run_prefix :: "hints \<Rightarrow> string option" where
  "expected_run_prefix h =
     (case (TEST_NAME h, SCHED_TYPE h) of
        (Some test_name, Some sched_type) \<Rightarrow>
          if test_name \<noteq> [] \<and> sched_type \<noteq> [] then Some (test_name @ ''_'' @ sched_type @ ''_'')
          else None
      | _ \<Rightarrow> None)"

text \<open>The immediate subdirectories, \<^verbatim>\<open>sorted([p for p in run_id_dir.iterdir() if p.is_dir()])\<close>.\<close>

definition candidates :: "path \<Rightarrow> entries \<Rightarrow> (path \<times> entries) list" where
  "candidates run_id_dir es =
     sort_key fst
       (List.map_filter (\<lambda>(p, x). case x of Dir ds \<Rightarrow> Some (p, ds) | File ls bad \<Rightarrow> None)
          (iterdir run_id_dir es))"

definition find_run_dirs :: "hints \<Rightarrow> path \<Rightarrow> entries \<Rightarrow> (path \<times> entries) list" where
  "find_run_dirs h run_id_dir es =
     (let cands = candidates run_id_dir es;
          pref = expected_run_prefix h;
          hinted =
            (case pref of
               None \<Rightarrow> []
             | Some pr \<Rightarrow>
                 if pr = [] then []
                 else filter (\<lambda>(d, ds). looks_like_run_dir d ds)
                        (filter (\<lambda>(d, ds). prefix pr (path_name d)) cands))
      in if hinted \<noteq> [] then hinted
         else (let autodetected = filter (\<lambda>(d, ds). looks_like_run_dir d ds) cands
               in if autodetected \<noteq> [] then autodetected
                  else if looks_like_run_dir run_id_dir es then [(run_id_dir, es)]
                  else []))"

text \<open>
  \<^verbatim>\<open>iter_log_files(root)\<close>: the node logs below \<open>root\<close> with their node identifiers, and
  with what reading each of them yields.
\<close>

definition iter_log_files :: "path \<Rightarrow> entries \<Rightarrow> (path \<times> nat \<times> string list \<times> bool) list" where
  "iter_log_files root es =
     List.map_filter
       (\<lambda>(f, x). case x of
                   Dir ds \<Rightarrow> None
                 | File ls bad \<Rightarrow>
                     (case node_of_name (path_name f) of
                        None \<Rightarrow> None
                      | Some node_id \<Rightarrow> Some (f, node_id, ls, bad)))
       (rglob root es)"

section \<open>Sinks and the filter of one run directory\<close>

text \<open>
  The output side: a sink is the path of a file opened for writing, and the state of the
  output files maps a path to the chunks written to it since it was last opened with mode
  \<^verbatim>\<open>"w"\<close> (one chunk for each call of \<^verbatim>\<open>write\<close>).  Creating a directory, opening a sink and
  writing to one can raise \<^verbatim>\<open>OSError\<close>; which operations do is a parameter, the record
  \<open>io\<close>.  A write takes effect when it is called (no buffering), so closing never fails.
\<close>

datatype pyerr = OSError | SystemExit nat

type_synonym ofs = "path \<rightharpoonup> string list"

record io =
  mkdir_fails :: "path \<Rightarrow> bool"
  open_fails :: "path \<Rightarrow> bool"
  write_fails :: "path \<Rightarrow> nat \<Rightarrow> bool"

definition content :: "ofs \<Rightarrow> path \<Rightarrow> string list" where
  "content fs p = (case fs p of None \<Rightarrow> [] | Some cs \<Rightarrow> cs)"

text \<open>\<^verbatim>\<open>p.open("w", encoding="utf-8")\<close>: creates or truncates.\<close>

definition open_w :: "io \<Rightarrow> path \<Rightarrow> ofs \<Rightarrow> pyerr option \<times> ofs" where
  "open_w env p fs = (if open_fails env p then (Some OSError, fs) else (None, fs(p \<mapsto> [])))"

text \<open>\<^verbatim>\<open>fh.write(chunk)\<close>; the oracle sees the sink and how many chunks it already holds.\<close>

definition write_chunk :: "io \<Rightarrow> path \<Rightarrow> string \<Rightarrow> ofs \<Rightarrow> pyerr option \<times> ofs" where
  "write_chunk env p chunk fs =
     (if write_fails env p (length (content fs p)) then (Some OSError, fs)
      else (None, fs(p \<mapsto> content fs p @ [chunk])))"

text \<open>\<^verbatim>\<open>str(n)\<close> for a node identifier.\<close>

fun show_nat :: "nat \<Rightarrow> string" where
  "show_nat n =
     (if n < 10 then [''0123456789'' ! n]
      else show_nat (n div 10) @ [''0123456789'' ! (n mod 10)])"

declare show_nat.simps [simp del]

definition node_jsonl :: "path \<Rightarrow> nat \<Rightarrow> path" where
  "node_jsonl out_dir node_id = out_dir @ [''node'' @ show_nat node_id @ ''.jsonl'']"

definition node_log :: "path \<Rightarrow> nat \<Rightarrow> path" where
  "node_log out_dir node_id = out_dir @ [''node'' @ show_nat node_id @ ''.log'']"

definition all_jsonl :: "path \<Rightarrow> path" where
  "all_jsonl out_dir = out_dir @ [''all_nodes.jsonl'']"

definition all_log :: "path \<Rightarrow> path" where
  "all_log out_dir = out_dir @ [''all_nodes.log'']"

record run_state =
  files :: ofs
  writers :: "nat \<rightharpoonup> path \<times> path"
  scanned :: nat
  kept :: nat

text \<open>The closure \<^verbatim>\<open>get_writers\<close> of \<^verbatim>\<open>filter_one_run_dir\<close>.\<close>

definition get_writers ::
  "io \<Rightarrow> path \<Rightarrow> nat \<Rightarrow> run_state \<Rightarrow> (pyerr + path \<times> path) \<times> run_state" where
  "get_writers env out_dir node_id st =
     (case writers st node_id of
        Some w \<Rightarrow> (Inr w, st)
      | None \<Rightarrow>
          (case open_w env (node_jsonl out_dir node_id) (files st) of
             (Some e, fs1) \<Rightarrow> (Inl e, st\<lparr>files := fs1\<rparr>)
           | (None, fs1) \<Rightarrow>
               (case open_w env (node_log out_dir node_id) fs1 of
                  (Some e, fs2) \<Rightarrow> (Inl e, st\<lparr>files := fs2\<rparr>)
                | (None, fs2) \<Rightarrow>
                    (let w = (node_jsonl out_dir node_id, node_log out_dir node_id)
                     in (Inr w, st\<lparr>files := fs2, writers := (writers st)(node_id \<mapsto> w)\<rparr>)))))"

text \<open>The provenance fields that \<^verbatim>\<open>write_record\<close> adds to its copy of the record.\<close>

definition enrich :: "pydict \<Rightarrow> path \<Rightarrow> string \<Rightarrow> nat \<Rightarrow> pydict" where
  "enrich rec source_file run_name node_id =
     dict_set
       (dict_set (dict_set rec ''source_file'' (JStr (path_str source_file)))
          ''run_dir'' (JStr run_name))
       ''node'' (JInt (int node_id))"

definition jsonl_line :: "(json \<Rightarrow> string) \<Rightarrow> pydict \<Rightarrow> string" where
  "jsonl_line dumps rec = dumps (JDict rec) @ [CHR 0x0A]"

definition pretty_line :: "pydict \<Rightarrow> string" where
  "pretty_line rec =
     str_of (dict_get rec ''ts'') @ '' '' @ str_of (dict_get rec ''msg'') @ [CHR 0x0A]"

definition write_record ::
  "io \<Rightarrow> (json \<Rightarrow> string) \<Rightarrow> path \<Rightarrow> path \<Rightarrow> pydict \<Rightarrow> path \<Rightarrow> string \<Rightarrow> nat \<Rightarrow> ofs
     \<Rightarrow> pyerr option \<times> ofs" where
  "write_record env dumps jf tf rec0 source_file run_name node_id fs =
     (let rec = enrich rec0 source_file run_name node_id
      in case write_chunk env jf (jsonl_line dumps rec) fs of
           (Some e, fs1) \<Rightarrow> (Some e, fs1)
         | (None, fs1) \<Rightarrow> write_chunk env tf (pretty_line rec) fs1)"

text \<open>
  \<^verbatim>\<open>level_set and rec["level"] not in level_set\<close>: a level set that is \<^verbatim>\<open>None\<close> or
  empty is false in Python and filters nothing.
\<close>

definition level_dropped :: "string set option \<Rightarrow> pydict \<Rightarrow> bool" where
  "level_dropped level_set rec =
     (case level_set of
        None \<Rightarrow> False
      | Some S \<Rightarrow> S \<noteq> {} \<and> str_of (dict_get rec ''level'') \<notin> S)"

text \<open>The parameters that stay fixed while one run directory is filtered.\<close>

record job =
  env :: io
  dumps :: "json \<Rightarrow> string"
  loads :: "string \<Rightarrow> json option"
  level_set :: "string set option"
  out_dir :: path
  run_name :: string

text \<open>One turn of the loop over the lines of a file (lines 267 to 285).\<close>

definition process_line ::
  "job \<Rightarrow> path \<Rightarrow> nat \<Rightarrow> run_state \<Rightarrow> string \<Rightarrow> pyerr option \<times> run_state" where
  "process_line j f node_id st0 line =
     (let st = st0\<lparr>scanned := scanned st0 + 1\<rparr>
      in case parse_line (loads j) line of
           None \<Rightarrow> (None, st)
         | Some rec \<Rightarrow>
             if level_dropped (level_set j) rec then (None, st)
             else
               (case get_writers (env j) (out_dir j) node_id st of
                  (Inl e, st1) \<Rightarrow> (Some e, st1)
                | (Inr (node_jf, node_tf), st1) \<Rightarrow>
                    (case write_record (env j) (dumps j) node_jf node_tf rec f (run_name j)
                            node_id (files st1) of
                       (Some e, fs2) \<Rightarrow> (Some e, st1\<lparr>files := fs2\<rparr>)
                     | (None, fs2) \<Rightarrow>
                         (case write_record (env j) (dumps j) (all_jsonl (out_dir j))
                                 (all_log (out_dir j)) rec f (run_name j) node_id fs2 of
                            (Some e, fs3) \<Rightarrow> (Some e, st1\<lparr>files := fs3\<rparr>)
                          | (None, fs3) \<Rightarrow>
                              (None, st1\<lparr>files := fs3, kept := kept st1 + 1\<rparr>)))))"

text \<open>The loop over the lines of one file; an exception ends it.\<close>

fun process_lines ::
  "job \<Rightarrow> path \<Rightarrow> nat \<Rightarrow> run_state \<Rightarrow> string list \<Rightarrow> pyerr option \<times> run_state" where
  "process_lines j f node_id st [] = (None, st)"
| "process_lines j f node_id st (line # ls) =
     (case process_line j f node_id st line of
        (Some e, st') \<Rightarrow> (Some e, st')
      | (None, st') \<Rightarrow> process_lines j f node_id st' ls)"

text \<open>
  The body of the loop over the files (lines 264 to 287): the \<^verbatim>\<open>try\<close> block encloses the
  reading of the file and everything done for its lines, and \<^verbatim>\<open>except OSError: continue\<close>
  goes on with the next file.  An \<^verbatim>\<open>OSError\<close> of the file itself (the flag of the entry)
  comes after its lines and is caught by the same clause, so the state after the lines is
  the state the next file starts from in either case.
\<close>

definition process_file ::
  "job \<Rightarrow> run_state \<Rightarrow> path \<times> nat \<times> string list \<times> bool \<Rightarrow> pyerr option \<times> run_state" where
  "process_file j st entry =
     (case entry of (f, node_id, ls, bad) \<Rightarrow>
        (case process_lines j f node_id st ls of
           (None, st') \<Rightarrow> (None, st')
         | (Some OSError, st') \<Rightarrow> (None, st')
         | (Some e, st') \<Rightarrow> (Some e, st')))"

fun process_files ::
  "job \<Rightarrow> run_state \<Rightarrow> (path \<times> nat \<times> string list \<times> bool) list \<Rightarrow> pyerr option \<times> run_state" where
  "process_files j st [] = (None, st)"
| "process_files j st (entry # rest) =
     (case process_file j st entry of
        (Some e, st') \<Rightarrow> (Some e, st')
      | (None, st') \<Rightarrow> process_files j st' rest)"

text \<open>
  \<^verbatim>\<open>filter_one_run_dir(run_dir, out_dir, level_set)\<close>: the counts \<open>(scanned, kept)\<close> or the
  exception that leaves the function, and the output files afterwards.
\<close>

definition filter_one_run_dir ::
  "io \<Rightarrow> (json \<Rightarrow> string) \<Rightarrow> (string \<Rightarrow> json option) \<Rightarrow> path \<Rightarrow> entries \<Rightarrow> path
     \<Rightarrow> string set option \<Rightarrow> ofs \<Rightarrow> (pyerr + nat \<times> nat) \<times> ofs" where
  "filter_one_run_dir e dmp lds run_dir es odir lvls fs =
     (let j = \<lparr>env = e, dumps = dmp, loads = lds, level_set = lvls, out_dir = odir,
                run_name = path_name run_dir\<rparr>
      in if mkdir_fails e odir then (Inl OSError, fs)
         else
           (case open_w e (all_jsonl odir) fs of
              (Some err, fs1) \<Rightarrow> (Inl err, fs1)
            | (None, fs1) \<Rightarrow>
                (case open_w e (all_log odir) fs1 of
                   (Some err, fs2) \<Rightarrow> (Inl err, fs2)
                 | (None, fs2) \<Rightarrow>
                     (case process_files j
                             \<lparr>files = fs2, writers = Map.empty, scanned = 0, kept = 0\<rparr>
                             (iter_log_files run_dir es) of
                        (Some err, st) \<Rightarrow> (Inl err, files st)
                      | (None, st) \<Rightarrow> (Inr (scanned st, kept st), files st)))))"

section \<open>The entry point\<close>

text \<open>\<^verbatim>\<open>s.split(",")\<close> and \<^verbatim>\<open>s.strip()\<close>.\<close>

fun split_on :: "char \<Rightarrow> string \<Rightarrow> string list" where
  "split_on sep [] = [[]]"
| "split_on sep (c # s) =
     (if c = sep then [] # split_on sep s
      else (case split_on sep s of [] \<Rightarrow> [[c]] | w # ws \<Rightarrow> (c # w) # ws))"

definition strip :: "string \<Rightarrow> string" where
  "strip s = rev (dropWhile is_space (rev (dropWhile is_space s)))"

text \<open>
  Lines 307 to 309 of \<^verbatim>\<open>main\<close>.  \<^verbatim>\<open>str.upper\<close> is modelled on the ASCII letters, which are
  the letters of every level \<^verbatim>\<open>LINE_RE\<close> can capture.
\<close>

definition parse_levels :: "string option \<Rightarrow> string set option" where
  "parse_levels levels =
     (case levels of
        None \<Rightarrow> None
      | Some a \<Rightarrow>
          if a = [] then None
          else Some (set (map (\<lambda>x. map upper_ascii (strip x))
                            (filter (\<lambda>x. strip x \<noteq> []) (split_on CHR '','' a)))))"

text \<open>What \<^verbatim>\<open>main\<close> prints: one line for each run directory, and the totals.\<close>

record report =
  per_run :: "(string \<times> nat \<times> nat \<times> path) list"
  total_scanned :: nat
  total_kept :: nat

text \<open>The loop of \<^verbatim>\<open>main\<close> over the run directories (lines 337 to 347).\<close>

fun process_run_dirs ::
  "io \<Rightarrow> (json \<Rightarrow> string) \<Rightarrow> (string \<Rightarrow> json option) \<Rightarrow> string set option \<Rightarrow> string
     \<Rightarrow> report \<Rightarrow> ofs \<Rightarrow> (path \<times> entries) list \<Rightarrow> (pyerr + report) \<times> ofs" where
  "process_run_dirs e dmp lds lvls out_subdir rep fs [] = (Inr rep, fs)"
| "process_run_dirs e dmp lds lvls out_subdir rep fs ((rd, es) # rds) =
     (case filter_one_run_dir e dmp lds rd es (rd @ [out_subdir]) lvls fs of
        (Inl err, fs') \<Rightarrow> (Inl err, fs')
      | (Inr (sc, kp), fs') \<Rightarrow>
          process_run_dirs e dmp lds lvls out_subdir
            \<lparr>per_run = per_run rep @ [(path_name rd, sc, kp, rd @ [out_subdir])],
             total_scanned = total_scanned rep + sc,
             total_kept = total_kept rep + kp\<rparr>
            fs' rds)"

text \<open>
  \<^verbatim>\<open>main\<close>, with the arguments already read by \<^verbatim>\<open>argparse\<close>: the path \<open>run_dir\<close>, what is
  found there (\<open>None\<close> when nothing is), \<^verbatim>\<open>--levels\<close> and \<^verbatim>\<open>--out-subdir\<close>.
\<close>

definition main ::
  "io \<Rightarrow> (json \<Rightarrow> string) \<Rightarrow> (string \<Rightarrow> json option) \<Rightarrow> hints \<Rightarrow> path \<Rightarrow> fsnode option
     \<Rightarrow> string option \<Rightarrow> string \<Rightarrow> ofs \<Rightarrow> (pyerr + report) \<times> ofs" where
  "main e dmp lds h run_id_dir root levels out_subdir fs =
     (let lvls = parse_levels levels
      in case root of
           Some (Dir es) \<Rightarrow>
             process_run_dirs e dmp lds lvls out_subdir
               \<lparr>per_run = [], total_scanned = 0, total_kept = 0\<rparr> fs
               (find_run_dirs h run_id_dir es)
         | _ \<Rightarrow> (Inl (SystemExit 2), fs))"


section \<open>The specification's notions\<close>

text \<open>
  The notions that the specification uses in its own words, for comparison with what the
  code computes.
\<close>

text \<open>A text contains a keyword of the fixed set as a substring.\<close>

definition contains_keyword :: "string \<Rightarrow> bool" where
  "contains_keyword s = (\<exists>k \<in> set EVENT_KEYWORDS. \<exists>pre post. s = pre @ k @ post)"

text \<open>
  The lexical grammar \<^verbatim>\<open><timestamp> [<thread>] <LEVEL> <target>:<line> <message>\<close>.
  \<open>shaped\<close> compares a text with a picture in which \<open>d\<close> stands for a digit;
  \<open>strict_ts\<close> is the timestamp as the specification describes it, \<open>loose_ts\<close> the
  timestamp as \<^verbatim>\<open>LINE_RE\<close> writes it.
\<close>

definition shaped :: "string \<Rightarrow> string \<Rightarrow> bool" where
  "shaped shape s = list_all2 (\<lambda>k c. if k = CHR ''d'' then is_digit c else c = k) shape s"

definition strict_ts :: "string \<Rightarrow> bool" where
  "strict_ts ts = shaped ''dddd-dd-ddTdd:dd:dd.ddddddZ'' ts"

definition loose_ts :: "string \<Rightarrow> bool" where
  "loose_ts ts =
     (\<exists>date tm. ts = date @ tm @ ''Z'' \<and> shaped ''dddd-dd-ddT'' date
                \<and> tm \<noteq> [] \<and> list_all is_time_char tm)"

definition blank :: "string \<Rightarrow> bool" where
  "blank w = (w \<noteq> [] \<and> list_all is_space w)"

definition log_line ::
  "(string \<Rightarrow> bool) \<Rightarrow> string \<Rightarrow> string \<Rightarrow> string \<Rightarrow> string \<Rightarrow> string \<Rightarrow> string \<Rightarrow> string \<Rightarrow> bool"
  where
  "log_line ts_ok s ts thr lvl tgt ln m =
     (\<exists>w1 w2 w3 w4.
        s = ts @ w1 @ ''['' @ thr @ '']'' @ w2 @ lvl @ w3 @ tgt @ '':'' @ ln @ w4 @ m
        \<and> ts_ok ts \<and> blank w1
        \<and> thr \<noteq> [] \<and> list_all (\<lambda>c. c \<noteq> CHR '']'') thr \<and> blank w2
        \<and> lvl \<noteq> [] \<and> list_all is_upper lvl \<and> blank w3
        \<and> tgt \<noteq> [] \<and> list_all (\<lambda>c. \<not> is_space c) tgt
        \<and> ln \<noteq> [] \<and> list_all is_digit ln \<and> blank w4
        \<and> list_all not_nl m)"

definition matches_grammar :: "(string \<Rightarrow> bool) \<Rightarrow> string \<Rightarrow> bool" where
  "matches_grammar ts_ok s = (\<exists>ts thr lvl tgt ln m. log_line ts_ok s ts thr lvl tgt ln m)"



definition last_close :: "string \<Rightarrow> string" where
  "last_close t = rev (dropWhile (\<lambda>c. c \<noteq> CHR ''}'') (rev t))"


text \<open>
  A run directory, in the specification's words: a directory with at least one node log
  anywhere below it.  \<open>below es n x\<close>: an entry named \<open>n\<close> with content \<open>x\<close> lies
  somewhere below the directory whose entries are \<open>es\<close>.  \<open>hinted_dirs\<close> and
  \<open>autodetected_dirs\<close> are the sets of steps 1 and 2 of the resolution of run directories;
  a hint counts when the variable holds a non-empty text.
\<close>

inductive below :: "entries \<Rightarrow> string \<Rightarrow> fsnode \<Rightarrow> bool" where
  here: "(n, x) \<in> set es \<Longrightarrow> below es n x"
| deeper: "(m, Dir ds) \<in> set es \<Longrightarrow> below ds n x \<Longrightarrow> below es n x"

definition has_node_log :: "entries \<Rightarrow> bool" where
  "has_node_log es = (\<exists>n ls bad. below es n (File ls bad) \<and> node_of_name n \<noteq> None)"

definition subdirs :: "path \<Rightarrow> entries \<Rightarrow> (path \<times> entries) set" where
  "subdirs base es = {(base @ [n], ds) | n ds. (n, Dir ds) \<in> set es}"

definition hinted_dirs :: "hints \<Rightarrow> path \<Rightarrow> entries \<Rightarrow> (path \<times> entries) set" where
  "hinted_dirs h base es =
     {(d, ds). (d, ds) \<in> subdirs base es
        \<and> (\<exists>t s. TEST_NAME h = Some t \<and> SCHED_TYPE h = Some s \<and> t \<noteq> [] \<and> s \<noteq> []
                 \<and> prefix (t @ ''_'' @ s @ ''_'') (path_name d))
        \<and> has_node_log ds}"

definition autodetected_dirs :: "path \<Rightarrow> entries \<Rightarrow> (path \<times> entries) set" where
  "autodetected_dirs base es = {(d, ds). (d, ds) \<in> subdirs base es \<and> has_node_log ds}"


text \<open>The list \<^verbatim>\<open>hinted\<close> that \<^verbatim>\<open>find_run_dirs\<close> builds.\<close>

definition hinted_list :: "hints \<Rightarrow> path \<Rightarrow> entries \<Rightarrow> (path \<times> entries) list" where
  "hinted_list h base es =
     (case expected_run_prefix h of
        None \<Rightarrow> []
      | Some pr \<Rightarrow>
          if pr = [] then []
          else filter (\<lambda>(d, ds). looks_like_run_dir d ds)
                 (filter (\<lambda>(d, ds). prefix pr (path_name d)) (candidates base es)))"


text \<open>
  What a run is expected to leave in its sinks.  \<open>reliable\<close>: no operation on the output
  side raises.  \<open>kept_records\<close>: the records that the relevance filter and the level filter
  let through, each with its source file and node identifier, in the order in which they
  are produced (the files in the order of the traversal, the lines of a file in their
  order).  \<open>structured\<close> and \<open>pretty\<close> are the two lines written for a record,
  \<open>sinks_of\<close> the sinks of a run directory and their contents, \<open>line_count\<close> the number of
  lines of the node logs.
\<close>

type_synonym kept_rec = "path \<times> nat \<times> pydict"

definition reliable :: "io \<Rightarrow> bool" where
  "reliable e = (\<forall>p. \<not> mkdir_fails e p \<and> \<not> open_fails e p \<and> (\<forall>n. \<not> write_fails e p n))"

definition kept_of_line ::
  "(string \<Rightarrow> json option) \<Rightarrow> string set option \<Rightarrow> path \<Rightarrow> nat \<Rightarrow> string \<Rightarrow> kept_rec list" where
  "kept_of_line lds lv f node_id line =
     (case parse_line lds line of
        None \<Rightarrow> []
      | Some r \<Rightarrow> if level_dropped lv r then [] else [(f, node_id, r)])"

definition kept_records ::
  "(string \<Rightarrow> json option) \<Rightarrow> string set option \<Rightarrow> (path \<times> nat \<times> string list \<times> bool) list
     \<Rightarrow> kept_rec list" where
  "kept_records lds lv logs =
     concat (map (\<lambda>(f, node_id, ls, bad). concat (map (kept_of_line lds lv f node_id) ls)) logs)"

definition structured :: "(json \<Rightarrow> string) \<Rightarrow> string \<Rightarrow> kept_rec \<Rightarrow> string" where
  "structured dmp rn k = (case k of (f, i, r) \<Rightarrow> jsonl_line dmp (enrich r f rn i))"

definition pretty :: "kept_rec \<Rightarrow> string" where
  "pretty k = (case k of (f, i, r) \<Rightarrow> pretty_line r)"

definition node_ids :: "kept_rec list \<Rightarrow> nat set" where
  "node_ids K = (\<lambda>k. fst (snd k)) ` set K"

definition for_node :: "nat \<Rightarrow> kept_rec list \<Rightarrow> kept_rec list" where
  "for_node i K = filter (\<lambda>k. fst (snd k) = i) K"

definition sinks_of :: "path \<Rightarrow> (json \<Rightarrow> string) \<Rightarrow> string \<Rightarrow> kept_rec list \<Rightarrow> ofs" where
  "sinks_of od dmp rn K =
     (\<lambda>p. if p = all_jsonl od then Some (map (structured dmp rn) K)
          else if p = all_log od then Some (map pretty K)
          else if \<exists>i \<in> node_ids K. p = node_jsonl od i
               then Some (map (structured dmp rn) (filter (\<lambda>k. node_jsonl od (fst (snd k)) = p) K))
          else if \<exists>i \<in> node_ids K. p = node_log od i
               then Some (map pretty (filter (\<lambda>k. node_log od (fst (snd k)) = p) K))
          else None)"


definition line_count :: "(path \<times> nat \<times> string list \<times> bool) list \<Rightarrow> nat" where
  "line_count logs = sum_list (map (\<lambda>(f, i, ls, bad). length ls) logs)"


text \<open>
  The invariant of the loops of \<^verbatim>\<open>filter_one_run_dir\<close> while no sink operation raises:
  after the records \<open>K\<close> the files are the files \<open>fs0\<close> found before the run, overridden
  by the sinks of \<open>K\<close>, and a writer pair is registered for exactly the nodes of \<open>K\<close>.
\<close>

definition sinks_inv :: "ofs \<Rightarrow> job \<Rightarrow> run_state \<Rightarrow> kept_rec list \<Rightarrow> bool" where
  "sinks_inv fs0 j st K \<longleftrightarrow>
     files st = fs0 ++ sinks_of (out_dir j) (dumps j) (run_name j) K
     \<and> writers st = (\<lambda>i. if i \<in> node_ids K
                           then Some (node_jsonl (out_dir j) i, node_log (out_dir j) i) else None)"


section \<open>Sample inputs\<close>

text \<open>
  Log lines, a decoder that knows the payloads of these lines, and a small tree; the
  properties below are instantiated on them.
\<close>

definition line_vote :: string where
  "line_vote = ''2026-02-17T11:09:41.177185Z [consensus-4] INFO consensus/src/round_manager.rs:1023 {\"event\":\"Vote\",\"epoch\":2,\"round\":51}'' @ [CHR 0x0A]"

definition line_newround :: string where
  "line_newround = ''2026-02-17T11:09:42.000001Z [consensus-4] WARN consensus/src/round_state.rs:77 NewRound event triggered'' @ [CHR 0x0A]"

definition line_heartbeat :: string where
  "line_heartbeat = ''2026-02-17T11:09:43.000001Z [network-1] INFO network/src/peer.rs:12 {\"event\":\"Heartbeat\"}'' @ [CHR 0x0A]"


definition line_short_ts :: string where
  "line_short_ts = ''2026-02-17T1Z [t] INFO a:1 Vote''"

definition line_noise :: string where
  "line_noise = ''    at consensus::round_manager (stack frame)'' @ [CHR 0x0A]"

definition sample_loads :: "string \<Rightarrow> json option" where
  "sample_loads s =
     (if s = ''{\"event\":\"Vote\",\"epoch\":2,\"round\":51}''
      then Some (JDict [(''event'', JStr ''Vote''), (''epoch'', JInt 2), (''round'', JInt 51)])
      else if s = ''{\"event\":\"Heartbeat\"}''
      then Some (JDict [(''event'', JStr ''Heartbeat'')])
      else None)"

definition sample_dumps :: "json \<Rightarrow> string" where
  "sample_dumps j = str_of (dict_get (items j) ''ts'') @ '' #'' @ str_of (dict_get (items j) ''run_dir'')"

definition io_ok :: io where
  "io_ok = \<lparr>mkdir_fails = (\<lambda>p. False), open_fails = (\<lambda>p. False), write_fails = (\<lambda>p n. False)\<rparr>"

definition no_hints :: hints where
  "no_hints = \<lparr>TEST_NAME = None, SCHED_TYPE = None\<rparr>"

definition sample_run :: entries where
  "sample_run = [(''stdout_0.log'', File [line_vote] False),
                 (''stderr_1.log'', File [line_noise, line_newround] False)]"

definition sample_root :: entries where
  "sample_root = [(''run_pct_0'', Dir sample_run)]"

definition sample_hints :: hints where
  "sample_hints = \<lparr>TEST_NAME = Some ''aptos'', SCHED_TYPE = Some ''pct''\<rparr>"

definition other_hints :: hints where
  "other_hints = \<lparr>TEST_NAME = Some ''foo'', SCHED_TYPE = Some ''bar''\<rparr>"

definition empty_name_hints :: hints where
  "empty_name_hints = \<lparr>TEST_NAME = Some [], SCHED_TYPE = Some ''pct''\<rparr>"

definition log_dir :: entries where
  "log_dir = [(''stdout_0.log'', File [line_vote] False)]"

definition notes_dir :: entries where
  "notes_dir = [(''notes.txt'', File [''nothing here''] False)]"

definition hinted_root :: entries where
  "hinted_root =
     [(''other_run'', Dir [(''logs'', Dir log_dir)]),
      (''aptos_pct_1'', Dir log_dir),
      (''aptos_pct_0'', Dir log_dir),
      (''aptos_pct_9'', Dir notes_dir),
      (''readme.txt'', File [] False)]"

definition odd_root :: entries where
  "odd_root = [(''zzz'', Dir log_dir), (''_pct_0'', Dir log_dir)]"



definition sample_rd :: path where
  "sample_rd = [''root'', ''run_pct_0'']"

definition sample_out :: path where
  "sample_out = [''root'', ''run_pct_0'', ''filtered'']"


definition warn_job :: job where
  "warn_job = \<lparr>env = io_ok, dumps = sample_dumps, loads = sample_loads,
               level_set = Some {''WARN''}, out_dir = sample_out, run_name = ''run_pct_0''\<rparr>"


definition fresh_state :: run_state where
  "fresh_state = \<lparr>files = [all_jsonl sample_out \<mapsto> [], all_log sample_out \<mapsto> []],
                  writers = Map.empty, scanned = 0, kept = 0\<rparr>"

definition stale_files :: ofs where
  "stale_files = [all_log sample_out \<mapsto> [''left by an earlier run'']]"


section \<open>The counts\<close>

lemma get_writers_counts:
  "get_writers e od i st = (r, st') \<Longrightarrow> scanned st' = scanned st \<and> kept st' = kept st"
  by (auto simp: get_writers_def open_w_def Let_def split: option.splits if_splits prod.splits)

lemma process_line_counts:
  assumes "process_line j f i st line = (r, st')"
  shows "scanned st' = Suc (scanned st)
       \<and> (kept st' = kept st \<or> (r = None \<and> kept st' = Suc (kept st)))"
proof -
  obtain r1 st1 where g: "get_writers (env j) (out_dir j) i (st\<lparr>scanned := scanned st + 1\<rparr>) = (r1, st1)"
    by (cases "get_writers (env j) (out_dir j) i (st\<lparr>scanned := scanned st + 1\<rparr>)") auto
  from get_writers_counts[OF g] have c: "scanned st1 = Suc (scanned st)" "kept st1 = kept st"
    by simp_all
  from assms g c show ?thesis
    by (auto simp: process_line_def Let_def split: option.splits if_splits prod.splits sum.splits)
qed

lemma process_lines_le:
  "process_lines j f i st ls = (r, st') \<Longrightarrow> kept st \<le> scanned st \<Longrightarrow> kept st' \<le> scanned st'"
proof (induction ls arbitrary: st)
  case Nil
  then show ?case by simp
next
  case (Cons l ls)
  obtain r1 st1 where p: "process_line j f i st l = (r1, st1)"
    by (cases "process_line j f i st l") auto
  from process_line_counts[OF p] Cons.prems(2) have le: "kept st1 \<le> scanned st1" by auto
  show ?case
  proof (cases r1)
    case None
    with Cons.prems(1) p have "process_lines j f i st1 ls = (r, st')" by simp
    from Cons.IH[OF this le] show ?thesis .
  next
    case (Some e)
    with Cons.prems(1) p have "st' = st1" by simp
    with le show ?thesis by simp
  qed
qed

lemma process_file_le:
  "process_file j st entry = (r, st') \<Longrightarrow> kept st \<le> scanned st \<Longrightarrow> kept st' \<le> scanned st'"
  by (auto simp: process_file_def split: prod.splits option.splits pyerr.splits
           dest: process_lines_le)

lemma process_files_le:
  "process_files j st fs = (r, st') \<Longrightarrow> kept st \<le> scanned st \<Longrightarrow> kept st' \<le> scanned st'"
proof (induction fs arbitrary: st)
  case Nil
  then show ?case by simp
next
  case (Cons a fs)
  obtain r1 st1 where p: "process_file j st a = (r1, st1)"
    by (cases "process_file j st a") auto
  from process_file_le[OF p Cons.prems(2)] have le: "kept st1 \<le> scanned st1" .
  show ?case
  proof (cases r1)
    case None
    with Cons.prems(1) p have "process_files j st1 fs = (r, st')" by simp
    from Cons.IH[OF this le] show ?thesis .
  next
    case (Some e)
    with Cons.prems(1) p le show ?thesis by simp
  qed
qed

lemma filter_one_run_dir_le:
  assumes "fst (filter_one_run_dir e dmp lds rd es od lv fs) = Inr (sc, kp)"
  shows "kp \<le> sc"
proof -
  let ?j = "\<lparr>env = e, dumps = dmp, loads = lds, level_set = lv, out_dir = od,
             run_name = path_name rd\<rparr>"
  let ?fs2 = "(fs(all_jsonl od \<mapsto> []))(all_log od \<mapsto> [])"
  let ?st0 = "\<lparr>files = ?fs2, writers = Map.empty, scanned = 0, kept = 0\<rparr>"
  obtain r st where p: "process_files ?j ?st0 (iter_log_files rd es) = (r, st)"
    by (cases "process_files ?j ?st0 (iter_log_files rd es)") auto
  have "kept st \<le> scanned st" using process_files_le[OF p] by simp
  with assms p show ?thesis
    by (auto simp: filter_one_run_dir_def open_w_def Let_def split: if_splits option.splits)
qed

lemma process_run_dirs_totals:
  "fst (process_run_dirs e dmp lds lv sub rep fs rds) = Inr rep' \<Longrightarrow>
   list_all (\<lambda>(n, sc, kp, od). kp \<le> sc) (per_run rep) \<Longrightarrow>
   total_scanned rep = sum_list (map (\<lambda>(n, sc, kp, od). sc) (per_run rep)) \<Longrightarrow>
   total_kept rep = sum_list (map (\<lambda>(n, sc, kp, od). kp) (per_run rep)) \<Longrightarrow>
   list_all (\<lambda>(n, sc, kp, od). kp \<le> sc) (per_run rep')
   \<and> total_scanned rep' = sum_list (map (\<lambda>(n, sc, kp, od). sc) (per_run rep'))
   \<and> total_kept rep' = sum_list (map (\<lambda>(n, sc, kp, od). kp) (per_run rep'))"
proof (induction rds arbitrary: rep fs)
  case Nil
  then show ?case by simp
next
  case (Cons a rds)
  obtain rd es where a: "a = (rd, es)" by (cases a)
  obtain r fs1 where f: "filter_one_run_dir e dmp lds rd es (rd @ [sub]) lv fs = (r, fs1)"
    by (cases "filter_one_run_dir e dmp lds rd es (rd @ [sub]) lv fs") auto
  show ?case
  proof (cases r)
    case (Inl err)
    with Cons.prems(1) a f show ?thesis by simp
  next
    case (Inr c)
    obtain sc kp where c: "c = (sc, kp)" by (cases c)
    have le: "kp \<le> sc"
      using filter_one_run_dir_le[of e dmp lds rd es "rd @ [sub]" lv fs sc kp] f Inr c
      by simp
    let ?rep = "\<lparr>per_run = per_run rep @ [(path_name rd, sc, kp, rd @ [sub])],
             total_scanned = total_scanned rep + sc,
             total_kept = total_kept rep + kp\<rparr>"
    from Cons.prems(1) a f Inr c
    have 1: "fst (process_run_dirs e dmp lds lv sub ?rep fs1 rds) = Inr rep'" by simp
    show ?thesis
      by (rule Cons.IH[OF 1]) (use Cons.prems le in simp_all)
  qed
qed

lemma sum_le_of_all:
  "list_all (\<lambda>(n, sc, kp, od). kp \<le> sc) (rs :: (string \<times> nat \<times> nat \<times> path) list) \<Longrightarrow>
   sum_list (map (\<lambda>(n, sc, kp, od). kp) rs) \<le> sum_list (map (\<lambda>(n, sc, kp, od). sc) rs)"
  by (induction rs) auto

text \<open>
  C7.  Whatever the sinks do, the counts that \<^verbatim>\<open>filter_one_run_dir\<close> returns for a run
  directory satisfy \<open>kept \<le> scanned\<close>; the totals that \<^verbatim>\<open>main\<close> reports are the sums of
  the counts of the run directories, and they satisfy \<open>kept \<le> scanned\<close> as well.
\<close>

theorem kept_le_scanned:
  "(fst (filter_one_run_dir e dmp lds rd es od lv fs) = Inr (sc, kp) \<longrightarrow> kp \<le> sc)
   \<and> (fst (main e dmp lds h p root levels sub fs) = Inr rep \<longrightarrow>
        list_all (\<lambda>(n, sc, kp, od). kp \<le> sc) (per_run rep)
        \<and> total_scanned rep = sum_list (map (\<lambda>(n, sc, kp, od). sc) (per_run rep))
        \<and> total_kept rep = sum_list (map (\<lambda>(n, sc, kp, od). kp) (per_run rep))
        \<and> total_kept rep \<le> total_scanned rep)"
proof (intro conjI impI)
  assume "fst (filter_one_run_dir e dmp lds rd es od lv fs) = Inr (sc, kp)"
  then show "kp \<le> sc" by (rule filter_one_run_dir_le)
next
  assume m: "fst (main e dmp lds h p root levels sub fs) = Inr rep"
  then obtain es where root: "root = Some (Dir es)"
    by (auto simp: main_def split: option.splits fsnode.splits)
  let ?rep0 = "\<lparr>per_run = [], total_scanned = 0, total_kept = 0\<rparr>"
  from m root have
    "fst (process_run_dirs e dmp lds (parse_levels levels) sub ?rep0 fs (find_run_dirs h p es))
       = Inr rep"
    by (simp add: main_def)
  from process_run_dirs_totals[OF this]
  have *: "list_all (\<lambda>(n, sc, kp, od). kp \<le> sc) (per_run rep)
        \<and> total_scanned rep = sum_list (map (\<lambda>(n, sc, kp, od). sc) (per_run rep))
        \<and> total_kept rep = sum_list (map (\<lambda>(n, sc, kp, od). kp) (per_run rep))"
    by simp
  then show "list_all (\<lambda>(n, sc, kp, od). kp \<le> sc) (per_run rep)"
    and "total_scanned rep = sum_list (map (\<lambda>(n, sc, kp, od). sc) (per_run rep))"
    and "total_kept rep = sum_list (map (\<lambda>(n, sc, kp, od). kp) (per_run rep))"
    by simp_all
  from * sum_le_of_all[of "per_run rep"] show "total_kept rep \<le> total_scanned rep" by simp
qed

theorem kept_le_scanned_witness:
  "fst (filter_one_run_dir io_ok sample_dumps sample_loads [''root'', ''run_pct_0''] sample_run
          [''root'', ''run_pct_0'', ''filtered''] (Some {''WARN''}) Map.empty) = Inr (3, 1)
   \<and> (1::nat) \<le> 3
   \<and> fst (main io_ok sample_dumps sample_loads no_hints [''root''] (Some (Dir sample_root))
            (Some ''warn'') ''filtered'' Map.empty)
       = Inr \<lparr>per_run = [(''run_pct_0'', 3, 1, [''root'', ''run_pct_0'', ''filtered''])],
               total_scanned = 3, total_kept = 1\<rparr>
   \<and> total_kept \<lparr>per_run = [(''run_pct_0'', 3, 1, [''root'', ''run_pct_0'', ''filtered''])],
               total_scanned = 3, total_kept = 1\<rparr> \<le> (3::nat)"
proof -
  have h1: "fst (filter_one_run_dir io_ok sample_dumps sample_loads [''root'', ''run_pct_0'']
                   sample_run [''root'', ''run_pct_0'', ''filtered''] (Some {''WARN''}) Map.empty)
              = Inr (3, 1)"
    by code_simp
  have h2: "fst (main io_ok sample_dumps sample_loads no_hints [''root''] (Some (Dir sample_root))
                   (Some ''warn'') ''filtered'' Map.empty)
       = Inr \<lparr>per_run = [(''run_pct_0'', 3, 1, [''root'', ''run_pct_0'', ''filtered''])],
               total_scanned = 3, total_kept = 1\<rparr>"
    by code_simp
  from h1 h2
    kept_le_scanned[of io_ok sample_dumps sample_loads "[''root'', ''run_pct_0'']" sample_run
      "[''root'', ''run_pct_0'', ''filtered'']" "Some {''WARN''}" Map.empty 3 1
      no_hints "[''root'']" "Some (Dir sample_root)" "Some ''warn''" "''filtered''"
      "\<lparr>per_run = [(''run_pct_0'', 3, 1, [''root'', ''run_pct_0'', ''filtered''])],
               total_scanned = 3, total_kept = 1\<rparr>"]
  show ?thesis by simp
qed

section \<open>Facts about the matcher\<close>

lemma reps_sound:
  "t \<in> set (reps p lo hi s) \<Longrightarrow>
   \<exists>u. s = u @ t \<and> lo \<le> length u \<and> (\<forall>h. hi = Some h \<longrightarrow> length u \<le> h) \<and> list_all p u"
proof (induction s arbitrary: lo hi)
  case Nil
  then show ?case by (auto split: if_splits)
next
  case (Cons c s)
  from Cons.prems consider
    (here) "lo = 0" "t = c # s"
    | (more) "p c" "hi \<noteq> Some 0" "t \<in> set (reps p (lo - 1) (map_option (\<lambda>h. h - 1) hi) s)"
    by (auto split: if_splits)
  then show ?case
  proof cases
    case here
    then show ?thesis by (intro exI[of _ "[]"]) simp
  next
    case more
    from Cons.IH[OF more(3)] obtain u where
      u: "s = u @ t" "lo - 1 \<le> length u"
         "\<forall>h. map_option (\<lambda>h. h - 1) hi = Some h \<longrightarrow> length u \<le> h" "list_all p u"
      by blast
    have "\<forall>h. hi = Some h \<longrightarrow> Suc (length u) \<le> h"
    proof (intro allI impI)
      fix h assume h: "hi = Some h"
      with more(2) have "h \<noteq> 0" by simp
      moreover from u(3) h have "length u \<le> h - 1" by simp
      ultimately show "Suc (length u) \<le> h" by arith
    qed
    with u more(1) show ?thesis
      by (intro exI[of _ "c # u"]) auto
  qed
qed

lemma reps_unbounded:
  "reps p 0 None s = map (\<lambda>k. drop k s) [0..<Suc (length (takeWhile p s))]"
proof (induction s)
  case Nil
  then show ?case by simp
next
  case (Cons c s)
  show ?case
  proof (cases "p c")
    case True
    have "[0..<Suc (Suc (length (takeWhile p s)))] = 0 # map Suc [0..<Suc (length (takeWhile p s))]"
      by (metis map_Suc_upt upt_conv_Cons zero_less_Suc)
    with True Cons.IH show ?thesis by (simp add: comp_def del: upt_Suc)
  next
    case False
    then show ?thesis by simp
  qed
qed

lemma ms_Chr_iff:
  "x \<in> set (ms (Chr p) (i, s, g)) \<longleftrightarrow> (\<exists>c t. s = c # t \<and> p c \<and> x = (Suc i, t, g))"
  by (auto split: list.splits)

lemma ms_lit_iff:
  "x \<in> set (ms (lit c) (i, s, g)) \<longleftrightarrow> (\<exists>t. s = c # t \<and> x = (Suc i, t, g))"
  by (auto simp: lit_def split: list.splits)

lemma ms_Cat_iff:
  "x \<in> set (ms (Cat a b) st) \<longleftrightarrow> (\<exists>y \<in> set (ms a st). x \<in> set (ms b y))"
  by auto

lemma ms_Rep_sound:
  "x \<in> set (ms (Rep p lo hi gr) (i, s, g)) \<Longrightarrow>
   \<exists>u t. s = u @ t \<and> x = (i + length u, t, g) \<and> lo \<le> length u
        \<and> (\<forall>h. hi = Some h \<longrightarrow> length u \<le> h) \<and> list_all p u"
  by (auto dest!: reps_sound split: if_splits)

lemma ms_many1_sound:
  "x \<in> set (ms (many1 p) (i, s, g)) \<Longrightarrow>
   \<exists>u t. s = u @ t \<and> x = (i + length u, t, g) \<and> u \<noteq> [] \<and> list_all p u"
  unfolding many1_def by (drule ms_Rep_sound) auto

lemma ms_Group_iff:
  "x \<in> set (ms (Group n a) (i, s, g)) \<longleftrightarrow>
   (\<exists>j t g'. (j, t, g') \<in> set (ms a (i, s, g)) \<and> x = (j, t, g'(n \<mapsto> take (j - i) s)))"
  by force

lemma concat_map_ms_Eps: "concat (map (ms Eps) xs) = xs"
  by (induction xs) simp_all

lemma ms_rx_seq_Cons:
  "ms (rx_seq (r # rs)) st = concat (map (ms (rx_seq rs)) (ms r st))"
  by (cases rs) (simp_all add: concat_map_ms_Eps)

lemma ms_rx_alts_Cons:
  "ms (rx_alts (r # rs)) st = ms r st @ ms (rx_alts rs) st"
  by (cases rs; cases st) (simp_all split: list.splits)

lemma ms_lit_str:
  "ms (lit_str k) (i, s, g) =
     (if prefix k s then [(i + length k, drop (length k) s, g)] else [])"
proof (induction k arbitrary: i s)
  case Nil
  then show ?case by (simp add: lit_str_def)
next
  case (Cons c k)
  have step: "ms (lit_str (c # k)) (i, s, g) = concat (map (ms (lit_str k)) (ms (lit c) (i, s, g)))"
    unfolding lit_str_def by (simp only: list.map ms_rx_seq_Cons)
  show ?case
  proof (cases s)
    case Nil
    then show ?thesis unfolding step by (simp add: lit_def)
  next
    case (Cons x t)
    then show ?thesis unfolding step by (simp add: lit_def Cons.IH)
  qed
qed

lemma ms_keyword_alts:
  "ms (rx_alts (map lit_str ks)) (i, s, g) \<noteq> [] \<longleftrightarrow> (\<exists>k \<in> set ks. prefix k s)"
proof (induction ks)
  case Nil
  then show ?case by (simp split: list.splits)
next
  case (Cons k ks)
  have "ms (rx_alts (map lit_str (k # ks))) (i, s, g)
          = ms (lit_str k) (i, s, g) @ ms (rx_alts (map lit_str ks)) (i, s, g)"
    by (simp only: list.map ms_rx_alts_Cons)
  with Cons.IH show ?case by (auto simp: ms_lit_str)
qed

lemma search_from_None_iff:
  "search_from r i s = None \<longleftrightarrow> (\<forall>k \<le> length s. ms r (i + k, drop k s, Map.empty) = [])"
proof (induction s arbitrary: i)
  case Nil
  then show ?case by (auto split: list.splits)
next
  case (Cons c s)
  have "(\<forall>k \<le> length (c # s). ms r (i + k, drop k (c # s), Map.empty) = [])
        \<longleftrightarrow> ms r (i, c # s, Map.empty) = [] \<and> (\<forall>k \<le> length s. ms r (Suc i + k, drop k s, Map.empty) = [])"
    (is "?L \<longleftrightarrow> ?A \<and> ?B")
  proof
    assume L: ?L
    from L[rule_format, of 0] have ?A by simp
    moreover have ?B
    proof (intro allI impI)
      fix k assume "k \<le> length s"
      with L[rule_format, of "Suc k"] show "ms r (Suc i + k, drop k s, Map.empty) = []" by simp
    qed
    ultimately show "?A \<and> ?B" ..
  next
    assume AB: "?A \<and> ?B"
    show ?L
    proof (intro allI impI)
      fix k assume k: "k \<le> length (c # s)"
      show "ms r (i + k, drop k (c # s), Map.empty) = []"
      proof (cases k)
        case 0
        with AB show ?thesis by simp
      next
        case (Suc k')
        with k AB show ?thesis by simp
      qed
    qed
  qed
  with Cons.IH[of "Suc i"] show ?case by (auto split: list.splits)
qed

lemma kw_search_iff: "kw_search s \<longleftrightarrow> contains_keyword s"
proof -
  have "kw_search s \<longleftrightarrow> (\<exists>j \<le> length s. \<exists>k \<in> set EVENT_KEYWORDS. prefix k (drop j s))"
    unfolding kw_search_def re_search_def KW_RE_def
    using search_from_None_iff[of "rx_alts (map lit_str EVENT_KEYWORDS)" 0 s]
    by (simp add: ms_keyword_alts)
  also have "\<dots> \<longleftrightarrow> contains_keyword s"
  proof
    assume "\<exists>j \<le> length s. \<exists>k \<in> set EVENT_KEYWORDS. prefix k (drop j s)"
    then obtain j k where k: "k \<in> set EVENT_KEYWORDS" and "prefix k (drop j s)" by blast
    then obtain post where "drop j s = k @ post" by (auto simp: prefix_def)
    then have "s = take j s @ k @ post" by (metis append_take_drop_id)
    with k show "contains_keyword s" unfolding contains_keyword_def by blast
  next
    assume "contains_keyword s"
    then obtain k pre post where k: "k \<in> set EVENT_KEYWORDS" and s: "s = pre @ k @ post"
      unfolding contains_keyword_def by blast
    then have "length pre \<le> length s" "prefix k (drop (length pre) s)" by simp_all
    with k show "\<exists>j \<le> length s. \<exists>k \<in> set EVENT_KEYWORDS. prefix k (drop j s)" by blast
  qed
  finally show ?thesis .
qed


section \<open>The relevance filter\<close>

lemma decide_keep_iff:
  "fst (decide_keep payload msg) \<longleftrightarrow>
     (\<exists>p e. payload = JDict p \<and> map_of p ''event'' = Some (JStr e) \<and> kw_search e) \<or> kw_search msg"
  by (cases payload)
     (auto simp: decide_keep_def Let_def is_dict_def is_str_def items_def dict_has_def dict_get_def
        str_of_def split: option.splits json.splits)

text \<open>
  C2.  For a line that \<^verbatim>\<open>LINE_RE\<close> matches, \<^verbatim>\<open>parse_line\<close> returns a record if and only
  if the decoded payload is a mapping whose \<^verbatim>\<open>event\<close> field is a string that contains a
  keyword, or the raw message contains a keyword.  In particular a line with a valid
  payload whose event matches no keyword, and whose message contains none, yields
  \<^verbatim>\<open>None\<close>.
\<close>

theorem parse_line_accepts_iff:
  assumes "re_match LINE_RE (rstrip_nl line) = Some d"
  shows "parse_line lds line \<noteq> None \<longleftrightarrow>
           (\<exists>p e. payload_of lds (grp d ''msg'') = JDict p \<and> map_of p ''event'' = Some (JStr e)
                  \<and> contains_keyword e)
           \<or> contains_keyword (grp d ''msg'')"
proof -
  have "parse_line lds line \<noteq> None \<longleftrightarrow> fst (decide_keep (payload_of lds (grp d ''msg'')) (grp d ''msg''))"
    using assms by (simp add: parse_line_def Let_def split: prod.splits)
  then show ?thesis by (simp add: decide_keep_iff kw_search_iff)
qed

theorem parse_line_accepts_iff_witness:
  "re_match LINE_RE (rstrip_nl line_heartbeat) = Some (the (re_match LINE_RE (rstrip_nl line_heartbeat)))
   \<and> payload_of sample_loads (grp (the (re_match LINE_RE (rstrip_nl line_heartbeat))) ''msg'')
       = JDict [(''event'', JStr ''Heartbeat'')]
   \<and> parse_line sample_loads line_heartbeat = None
   \<and> \<not> contains_keyword ''Heartbeat''
   \<and> \<not> contains_keyword (grp (the (re_match LINE_RE (rstrip_nl line_heartbeat))) ''msg'')
   \<and> re_match LINE_RE (rstrip_nl line_vote) = Some (the (re_match LINE_RE (rstrip_nl line_vote)))
   \<and> parse_line sample_loads line_vote \<noteq> None"
proof -
  have m: "re_match LINE_RE (rstrip_nl line_heartbeat) \<noteq> None" by code_simp
  then have h: "re_match LINE_RE (rstrip_nl line_heartbeat)
                  = Some (the (re_match LINE_RE (rstrip_nl line_heartbeat)))" by simp
  have p: "payload_of sample_loads (grp (the (re_match LINE_RE (rstrip_nl line_heartbeat))) ''msg'')
             = JDict [(''event'', JStr ''Heartbeat'')]" by code_simp
  have n: "parse_line sample_loads line_heartbeat = None" by code_simp
  have m2: "re_match LINE_RE (rstrip_nl line_vote) \<noteq> None" by code_simp
  then have h2: "re_match LINE_RE (rstrip_nl line_vote)
                  = Some (the (re_match LINE_RE (rstrip_nl line_vote)))" by simp
  have v: "kw_search ''Vote''" by code_simp
  have pv: "payload_of sample_loads (grp (the (re_match LINE_RE (rstrip_nl line_vote))) ''msg'')
             = JDict [(''event'', JStr ''Vote''), (''epoch'', JInt 2), (''round'', JInt 51)]"
    by code_simp
  from parse_line_accepts_iff[OF h, of sample_loads] n p
  have a: "\<not> contains_keyword ''Heartbeat''"
    and b: "\<not> contains_keyword (grp (the (re_match LINE_RE (rstrip_nl line_heartbeat))) ''msg'')"
    by simp_all
  from parse_line_accepts_iff[OF h2, of sample_loads] pv v
  have c: "parse_line sample_loads line_vote \<noteq> None"
    by (simp add: kw_search_iff)
  from h p n a b h2 c show ?thesis by blast
qed

section \<open>The line grammar\<close>

lemma seq_cons_elim:
  assumes "x \<in> set (ms (rx_seq (r # rs)) st)"
  obtains y where "y \<in> set (ms r st)" "x \<in> set (ms (rx_seq rs) y)"
  using assms by (auto simp: ms_rx_seq_Cons)

lemma lit_elim:
  assumes "y \<in> set (ms (lit c) (i, s, g))"
  obtains t where "s = c # t" "y = (Suc i, t, g)"
  using assms by (auto simp: ms_lit_iff)

lemma rep_elim:
  assumes "y \<in> set (ms (Rep p lo hi gr) (i, s, g))"
  obtains u t where "s = u @ t" "y = (i + length u, t, g)" "lo \<le> length u"
    "\<forall>h. hi = Some h \<longrightarrow> length u \<le> h" "list_all p u"
  using ms_Rep_sound[OF assms] by blast

lemma many1_elim:
  assumes "y \<in> set (ms (many1 p) (i, s, g))"
  obtains u t where "s = u @ t" "y = (i + length u, t, g)" "u \<noteq> []" "list_all p u"
  using ms_many1_sound[OF assms] by blast

lemma group_rep_elim:
  assumes "y \<in> set (ms (Group n (Rep p lo hi gr)) (i, s, g))"
  obtains u t where "s = u @ t" "y = (i + length u, t, g(n \<mapsto> u))" "lo \<le> length u"
    "list_all p u"
proof -
  from assms obtain j t g' where
    a: "(j, t, g') \<in> set (ms (Rep p lo hi gr) (i, s, g))" and y: "y = (j, t, g'(n \<mapsto> take (j - i) s))"
    unfolding ms_Group_iff by blast
  from a obtain u t' where u: "s = u @ t'" "(j, t, g') = (i + length u, t', g)" "lo \<le> length u"
    "list_all p u" by (rule rep_elim)
  with y have "y = (i + length u, t, g(n \<mapsto> u))" by simp
  with u that show thesis by blast
qed

lemma digits_2: "length u = 2 \<Longrightarrow> list_all is_digit u \<Longrightarrow> shaped ''dd'' u"
  by (cases u; cases "tl u") (auto simp: shaped_def)

lemma digits_4: "length u = 4 \<Longrightarrow> list_all is_digit u \<Longrightarrow> shaped ''dddd'' u"
  by (cases u; cases "tl u"; cases "tl (tl u)"; cases "tl (tl (tl u))") (auto simp: shaped_def)

lemma shaped_append: "shaped m1 u \<Longrightarrow> shaped m2 v \<Longrightarrow> shaped (m1 @ m2) (u @ v)"
  unfolding shaped_def by (rule list_all2_appendI)

lemma shaped_self: "CHR ''d'' \<notin> set k \<Longrightarrow> shaped k k"
  unfolding shaped_def by (induction k) auto

lemma TS_RE_sound:
  assumes "y \<in> set (ms TS_RE (i, s, g))"
  obtains u t where "s = u @ t" "y = (i + length u, t, g)" "loose_ts u"
proof -
  note a0 = assms[unfolded TS_RE_def]
  from a0 obtain y1 where y1: "y1 \<in> set (ms (Rep is_digit 4 (Some 4) True) (i, s, g))"
    and a1: "y \<in> set (ms (rx_seq [lit CHR ''-'', Rep is_digit 2 (Some 2) True, lit CHR ''-'',
                Rep is_digit 2 (Some 2) True, lit CHR ''T'', many1 is_time_char, lit CHR ''Z'']) y1)"
    by (rule seq_cons_elim)
  from y1 obtain Y t1 where Y: "s = Y @ t1" "y1 = (i + length Y, t1, g)" "4 \<le> length Y"
    "\<forall>h. Some 4 = Some h \<longrightarrow> length Y \<le> h" "list_all is_digit Y" by (rule rep_elim)
  from Y have lY: "length Y = 4" by simp
  from a1 obtain y2 where y2: "y2 \<in> set (ms (lit CHR ''-'') y1)"
    and a2: "y \<in> set (ms (rx_seq [Rep is_digit 2 (Some 2) True, lit CHR ''-'',
                Rep is_digit 2 (Some 2) True, lit CHR ''T'', many1 is_time_char, lit CHR ''Z'']) y2)"
    by (rule seq_cons_elim)
  from y2 Y(2) obtain t2 where t2: "t1 = CHR ''-'' # t2" "y2 = (Suc (i + length Y), t2, g)"
    by (auto elim: lit_elim)
  from a2 obtain y3 where y3: "y3 \<in> set (ms (Rep is_digit 2 (Some 2) True) y2)"
    and a3: "y \<in> set (ms (rx_seq [lit CHR ''-'',
                Rep is_digit 2 (Some 2) True, lit CHR ''T'', many1 is_time_char, lit CHR ''Z'']) y3)"
    by (rule seq_cons_elim)
  from y3[unfolded t2(2)] obtain M t3 where M: "t2 = M @ t3" "y3 = (Suc (i + length Y) + length M, t3, g)"
    "2 \<le> length M" "\<forall>h. Some 2 = Some h \<longrightarrow> length M \<le> h" "list_all is_digit M" by (rule rep_elim)
  from M have lM: "length M = 2" by simp
  from a3 obtain y4 where y4: "y4 \<in> set (ms (lit CHR ''-'') y3)"
    and a4: "y \<in> set (ms (rx_seq [Rep is_digit 2 (Some 2) True, lit CHR ''T'',
                many1 is_time_char, lit CHR ''Z'']) y4)"
    by (rule seq_cons_elim)
  from y4 M(2) obtain t4 where t4: "t3 = CHR ''-'' # t4" "y4 = (Suc (Suc (i + length Y) + length M), t4, g)"
    by (auto elim: lit_elim)
  from a4 obtain y5 where y5: "y5 \<in> set (ms (Rep is_digit 2 (Some 2) True) y4)"
    and a5: "y \<in> set (ms (rx_seq [lit CHR ''T'', many1 is_time_char, lit CHR ''Z'']) y5)"
    by (rule seq_cons_elim)
  from y5[unfolded t4(2)] obtain D t5 where D: "t4 = D @ t5"
    "y5 = (Suc (Suc (i + length Y) + length M) + length D, t5, g)"
    "2 \<le> length D" "\<forall>h. Some 2 = Some h \<longrightarrow> length D \<le> h" "list_all is_digit D" by (rule rep_elim)
  from D have lD: "length D = 2" by simp
  from a5 obtain y6 where y6: "y6 \<in> set (ms (lit CHR ''T'') y5)"
    and a6: "y \<in> set (ms (rx_seq [many1 is_time_char, lit CHR ''Z'']) y6)"
    by (rule seq_cons_elim)
  from y6 D(2) obtain t6 where t6: "t5 = CHR ''T'' # t6"
    "y6 = (Suc (Suc (Suc (i + length Y) + length M) + length D), t6, g)"
    by (auto elim: lit_elim)
  from a6 obtain y7 where y7: "y7 \<in> set (ms (many1 is_time_char) y6)"
    and a7: "y \<in> set (ms (rx_seq [lit CHR ''Z'']) y7)"
    by (rule seq_cons_elim)
  from y7[unfolded t6(2)] obtain tm t7 where tm: "t6 = tm @ t7"
    "y7 = (Suc (Suc (Suc (i + length Y) + length M) + length D) + length tm, t7, g)"
    "tm \<noteq> []" "list_all is_time_char tm" by (rule many1_elim)
  from a7 tm(2) obtain t8 where t8: "t7 = CHR ''Z'' # t8"
    "y = (Suc (Suc (Suc (Suc (i + length Y) + length M) + length D) + length tm), t8, g)"
    by (auto elim: lit_elim)
  let ?date = "Y @ ''-'' @ M @ ''-'' @ D @ ''T''"
  let ?u = "?date @ tm @ ''Z''"
  have s: "s = ?u @ t8" using Y(1) t2(1) M(1) t4(1) D(1) t6(1) tm(1) t8(1) by simp
  have "shaped (''dddd'' @ ''-'' @ ''dd'' @ ''-'' @ ''dd'' @ ''T'') ?date"
    by (intro shaped_append digits_4 digits_2 lY lM lD Y(5) M(5) D(5) shaped_self) simp_all
  then have "shaped ''dddd-dd-ddT'' ?date" by simp
  with tm(3,4) have "loose_ts ?u" unfolding loose_ts_def by blast
  moreover have "y = (i + length ?u, t8, g)" using t8(2) by simp
  ultimately show thesis using s that by blast
qed


lemma lit_elim':
  assumes "y \<in> set (ms (lit c) st)"
  obtains i t g where "fst (snd st) = c # t" "y = (i, t, g)" "g = snd (snd st)"
proof -
  obtain i s g where st: "st = (i, s, g)" by (cases st)
  from assms[unfolded st] obtain t where "s = c # t" "y = (Suc i, t, g)" by (rule lit_elim)
  with st that show thesis by simp
qed

lemma many1_elim':
  assumes "y \<in> set (ms (many1 p) st)"
  obtains u t i where "fst (snd st) = u @ t" "y = (i, t, snd (snd st))" "u \<noteq> []" "list_all p u"
proof -
  obtain i s g where st: "st = (i, s, g)" by (cases st)
  from assms[unfolded st] obtain u t where "s = u @ t" "y = (i + length u, t, g)" "u \<noteq> []"
    "list_all p u" by (rule many1_elim)
  with st that show thesis by simp
qed

lemma group_rep_elim':
  assumes "y \<in> set (ms (Group n (Rep p lo hi gr)) st)"
  obtains u t i where "fst (snd st) = u @ t" "y = (i, t, (snd (snd st))(n \<mapsto> u))"
    "lo \<le> length u" "list_all p u"
proof -
  obtain i s g where st: "st = (i, s, g)" by (cases st)
  from assms[unfolded st] obtain u t where "s = u @ t" "y = (i + length u, t, g(n \<mapsto> u))"
    "lo \<le> length u" "list_all p u" by (rule group_rep_elim)
  with st that show thesis by simp
qed

lemma group_TS_elim:
  assumes "y \<in> set (ms (Group ''ts'' TS_RE) st)"
  obtains u t i where "fst (snd st) = u @ t" "y = (i, t, (snd (snd st))(''ts'' \<mapsto> u))" "loose_ts u"
proof -
  obtain i s g where st: "st = (i, s, g)" by (cases st)
  from assms[unfolded st ms_Group_iff] obtain j t g' where
    a: "(j, t, g') \<in> set (ms TS_RE (i, s, g))" and y: "y = (j, t, g'(''ts'' \<mapsto> take (j - i) s))"
    by blast
  from a obtain u t' where u: "s = u @ t'" "(j, t, g') = (i + length u, t', g)" "loose_ts u"
    by (rule TS_RE_sound)
  with y have "y = (i + length u, t, g(''ts'' \<mapsto> u))" by simp
  with u st that show thesis by simp
qed

lemma blankI: "u \<noteq> [] \<Longrightarrow> list_all is_space u \<Longrightarrow> blank u"
  by (simp add: blank_def)

lemma LINE_RE_sound:
  assumes "x \<in> set (ms LINE_RE (0, s, Map.empty))"
  obtains ts w1 thr w2 lvl w3 tgt ln w4 m e j where
    "s = ts @ w1 @ ''['' @ thr @ '']'' @ w2 @ lvl @ w3 @ tgt @ '':'' @ ln @ w4 @ m @ e"
    "e = [] \<or> e = [CHR 0x0A]"
    "x = (j, e, [''ts'' \<mapsto> ts, ''thr'' \<mapsto> thr, ''level'' \<mapsto> lvl, ''target'' \<mapsto> tgt,
                 ''line'' \<mapsto> ln, ''msg'' \<mapsto> m])"
    "loose_ts ts" "blank w1" "thr \<noteq> []" "list_all (\<lambda>c. c \<noteq> CHR '']'') thr" "blank w2"
    "lvl \<noteq> []" "list_all is_upper lvl" "blank w3"
    "tgt \<noteq> []" "list_all (\<lambda>c. \<not> is_space c) tgt"
    "ln \<noteq> []" "list_all is_digit ln" "blank w4" "list_all not_nl m"
proof -
  note a0 = assms[unfolded LINE_RE_def]
  from a0 obtain y1 where y1: "y1 \<in> set (ms Bol (0, s, Map.empty))"
    and a1: "x \<in> set (ms (rx_seq [Group ''ts'' TS_RE, many1 is_space,
      lit CHR ''['', Group ''thr'' (many1 (\<lambda>c. c \<noteq> CHR '']'')), lit CHR '']'', many1 is_space,
      Group ''level'' (many1 is_upper), many1 is_space,
      Group ''target'' (Rep (\<lambda>c. \<not> is_space c) 1 None False), lit CHR '':'',
      Group ''line'' (many1 is_digit), many1 is_space,
      Group ''msg'' (Rep not_nl 0 None True), Eol]) y1)"
    by (rule seq_cons_elim)
  from y1 have y1e: "y1 = (0, s, Map.empty)" by simp
  from a1 obtain y2 where y2: "y2 \<in> set (ms (Group ''ts'' TS_RE) y1)"
    and a2: "x \<in> set (ms (rx_seq [many1 is_space,
      lit CHR ''['', Group ''thr'' (many1 (\<lambda>c. c \<noteq> CHR '']'')), lit CHR '']'', many1 is_space,
      Group ''level'' (many1 is_upper), many1 is_space,
      Group ''target'' (Rep (\<lambda>c. \<not> is_space c) 1 None False), lit CHR '':'',
      Group ''line'' (many1 is_digit), many1 is_space,
      Group ''msg'' (Rep not_nl 0 None True), Eol]) y2)"
    by (rule seq_cons_elim)
  from y2 obtain ts t2 i2 where ts: "fst (snd y1) = ts @ t2" "y2 = (i2, t2, (snd (snd y1))(''ts'' \<mapsto> ts))"
    "loose_ts ts" by (rule group_TS_elim)
  from a2 obtain y3 where y3: "y3 \<in> set (ms (many1 is_space) y2)"
    and a3: "x \<in> set (ms (rx_seq [
      lit CHR ''['', Group ''thr'' (many1 (\<lambda>c. c \<noteq> CHR '']'')), lit CHR '']'', many1 is_space,
      Group ''level'' (many1 is_upper), many1 is_space,
      Group ''target'' (Rep (\<lambda>c. \<not> is_space c) 1 None False), lit CHR '':'',
      Group ''line'' (many1 is_digit), many1 is_space,
      Group ''msg'' (Rep not_nl 0 None True), Eol]) y3)"
    by (rule seq_cons_elim)
  from y3 obtain w1 t3 i3 where w1: "fst (snd y2) = w1 @ t3" "y3 = (i3, t3, snd (snd y2))"
    "w1 \<noteq> []" "list_all is_space w1" by (rule many1_elim')
  from a3 obtain y4 where y4: "y4 \<in> set (ms (lit CHR ''['') y3)"
    and a4: "x \<in> set (ms (rx_seq [
      Group ''thr'' (many1 (\<lambda>c. c \<noteq> CHR '']'')), lit CHR '']'', many1 is_space,
      Group ''level'' (many1 is_upper), many1 is_space,
      Group ''target'' (Rep (\<lambda>c. \<not> is_space c) 1 None False), lit CHR '':'',
      Group ''line'' (many1 is_digit), many1 is_space,
      Group ''msg'' (Rep not_nl 0 None True), Eol]) y4)"
    by (rule seq_cons_elim)
  from y4 obtain i4 t4 g4 where t4: "fst (snd y3) = CHR ''['' # t4" "y4 = (i4, t4, g4)"
    "g4 = snd (snd y3)" by (rule lit_elim')
  from a4 obtain y5 where y5: "y5 \<in> set (ms (Group ''thr'' (many1 (\<lambda>c. c \<noteq> CHR '']''))) y4)"
    and a5: "x \<in> set (ms (rx_seq [lit CHR '']'', many1 is_space,
      Group ''level'' (many1 is_upper), many1 is_space,
      Group ''target'' (Rep (\<lambda>c. \<not> is_space c) 1 None False), lit CHR '':'',
      Group ''line'' (many1 is_digit), many1 is_space,
      Group ''msg'' (Rep not_nl 0 None True), Eol]) y5)"
    by (rule seq_cons_elim)
  from y5[unfolded many1_def] obtain thr t5 i5 where thr: "fst (snd y4) = thr @ t5"
    "y5 = (i5, t5, (snd (snd y4))(''thr'' \<mapsto> thr))" "1 \<le> length thr"
    "list_all (\<lambda>c. c \<noteq> CHR '']'') thr" by (rule group_rep_elim')
  from a5 obtain y6 where y6: "y6 \<in> set (ms (lit CHR '']'') y5)"
    and a6: "x \<in> set (ms (rx_seq [many1 is_space,
      Group ''level'' (many1 is_upper), many1 is_space,
      Group ''target'' (Rep (\<lambda>c. \<not> is_space c) 1 None False), lit CHR '':'',
      Group ''line'' (many1 is_digit), many1 is_space,
      Group ''msg'' (Rep not_nl 0 None True), Eol]) y6)"
    by (rule seq_cons_elim)
  from y6 obtain i6 t6 g6 where t6: "fst (snd y5) = CHR '']'' # t6" "y6 = (i6, t6, g6)"
    "g6 = snd (snd y5)" by (rule lit_elim')
  from a6 obtain y7 where y7: "y7 \<in> set (ms (many1 is_space) y6)"
    and a7: "x \<in> set (ms (rx_seq [
      Group ''level'' (many1 is_upper), many1 is_space,
      Group ''target'' (Rep (\<lambda>c. \<not> is_space c) 1 None False), lit CHR '':'',
      Group ''line'' (many1 is_digit), many1 is_space,
      Group ''msg'' (Rep not_nl 0 None True), Eol]) y7)"
    by (rule seq_cons_elim)
  from y7 obtain w2 t7 i7 where w2: "fst (snd y6) = w2 @ t7" "y7 = (i7, t7, snd (snd y6))"
    "w2 \<noteq> []" "list_all is_space w2" by (rule many1_elim')
  from a7 obtain y8 where y8: "y8 \<in> set (ms (Group ''level'' (many1 is_upper)) y7)"
    and a8: "x \<in> set (ms (rx_seq [many1 is_space,
      Group ''target'' (Rep (\<lambda>c. \<not> is_space c) 1 None False), lit CHR '':'',
      Group ''line'' (many1 is_digit), many1 is_space,
      Group ''msg'' (Rep not_nl 0 None True), Eol]) y8)"
    by (rule seq_cons_elim)
  from y8[unfolded many1_def] obtain lvl t8 i8 where lvl: "fst (snd y7) = lvl @ t8"
    "y8 = (i8, t8, (snd (snd y7))(''level'' \<mapsto> lvl))" "1 \<le> length lvl"
    "list_all is_upper lvl" by (rule group_rep_elim')
  from a8 obtain y9 where y9: "y9 \<in> set (ms (many1 is_space) y8)"
    and a9: "x \<in> set (ms (rx_seq [
      Group ''target'' (Rep (\<lambda>c. \<not> is_space c) 1 None False), lit CHR '':'',
      Group ''line'' (many1 is_digit), many1 is_space,
      Group ''msg'' (Rep not_nl 0 None True), Eol]) y9)"
    by (rule seq_cons_elim)
  from y9 obtain w3 t9 i9 where w3: "fst (snd y8) = w3 @ t9" "y9 = (i9, t9, snd (snd y8))"
    "w3 \<noteq> []" "list_all is_space w3" by (rule many1_elim')
  from a9 obtain y10 where y10: "y10 \<in> set (ms (Group ''target'' (Rep (\<lambda>c. \<not> is_space c) 1 None False)) y9)"
    and a10: "x \<in> set (ms (rx_seq [lit CHR '':'',
      Group ''line'' (many1 is_digit), many1 is_space,
      Group ''msg'' (Rep not_nl 0 None True), Eol]) y10)"
    by (rule seq_cons_elim)
  from y10 obtain tgt t10 i10 where tgt: "fst (snd y9) = tgt @ t10"
    "y10 = (i10, t10, (snd (snd y9))(''target'' \<mapsto> tgt))" "1 \<le> length tgt"
    "list_all (\<lambda>c. \<not> is_space c) tgt" by (rule group_rep_elim')
  from a10 obtain y11 where y11: "y11 \<in> set (ms (lit CHR '':'') y10)"
    and a11: "x \<in> set (ms (rx_seq [
      Group ''line'' (many1 is_digit), many1 is_space,
      Group ''msg'' (Rep not_nl 0 None True), Eol]) y11)"
    by (rule seq_cons_elim)
  from y11 obtain i11 t11 g11 where t11: "fst (snd y10) = CHR '':'' # t11" "y11 = (i11, t11, g11)"
    "g11 = snd (snd y10)" by (rule lit_elim')
  from a11 obtain y12 where y12: "y12 \<in> set (ms (Group ''line'' (many1 is_digit)) y11)"
    and a12: "x \<in> set (ms (rx_seq [many1 is_space,
      Group ''msg'' (Rep not_nl 0 None True), Eol]) y12)"
    by (rule seq_cons_elim)
  from y12[unfolded many1_def] obtain ln t12 i12 where ln: "fst (snd y11) = ln @ t12"
    "y12 = (i12, t12, (snd (snd y11))(''line'' \<mapsto> ln))" "1 \<le> length ln"
    "list_all is_digit ln" by (rule group_rep_elim')
  from a12 obtain y13 where y13: "y13 \<in> set (ms (many1 is_space) y12)"
    and a13: "x \<in> set (ms (rx_seq [Group ''msg'' (Rep not_nl 0 None True), Eol]) y13)"
    by (rule seq_cons_elim)
  from y13 obtain w4 t13 i13 where w4: "fst (snd y12) = w4 @ t13" "y13 = (i13, t13, snd (snd y12))"
    "w4 \<noteq> []" "list_all is_space w4" by (rule many1_elim')
  from a13 obtain y14 where y14: "y14 \<in> set (ms (Group ''msg'' (Rep not_nl 0 None True)) y13)"
    and a14: "x \<in> set (ms (rx_seq [Eol]) y14)"
    by (rule seq_cons_elim)
  from y14 obtain m t14 i14 where m: "fst (snd y13) = m @ t14"
    "y14 = (i14, t14, (snd (snd y13))(''msg'' \<mapsto> m))" "0 \<le> length m"
    "list_all not_nl m" by (rule group_rep_elim')
  from a14 m(2) have e: "x = y14" "t14 = [] \<or> t14 = [CHR 0x0A]"
    by (auto split: if_splits)
  have s: "s = ts @ w1 @ ''['' @ thr @ '']'' @ w2 @ lvl @ w3 @ tgt @ '':'' @ ln @ w4 @ m @ t14"
    using y1e ts(1,2) w1(1,2) t4(1,2) thr(1,2) t6(1,2) w2(1,2) lvl(1,2) w3(1,2) tgt(1,2)
      t11(1,2) ln(1,2) w4(1,2) m(1) by simp
  have g: "x = (i14, t14, [''ts'' \<mapsto> ts, ''thr'' \<mapsto> thr, ''level'' \<mapsto> lvl, ''target'' \<mapsto> tgt,
                 ''line'' \<mapsto> ln, ''msg'' \<mapsto> m])"
    using e(1) y1e ts(2) w1(2) t4(2,3) thr(2) t6(2,3) w2(2) lvl(2) w3(2) tgt(2)
      t11(2,3) ln(2) w4(2) m(2) by simp
  show thesis
    by (rule that[OF s e(2) g ts(3) blankI[OF w1(3,4)] _ thr(4) blankI[OF w2(3,4)] _ lvl(4)
          blankI[OF w3(3,4)] _ tgt(4) _ ln(4) blankI[OF w4(3,4)] m(4)])
       (use thr(3) lvl(3) tgt(3) ln(3) in auto)
qed

lemma parse_line_Some:
  assumes "parse_line lds line = Some r"
  obtains d where "re_match LINE_RE (rstrip_nl line) = Some d"
    "r = build_out d (payload_of lds (grp d ''msg''))
           (snd (decide_keep (payload_of lds (grp d ''msg'')) (grp d ''msg'')))"
    "fst (decide_keep (payload_of lds (grp d ''msg'')) (grp d ''msg''))"
proof (cases "re_match LINE_RE (rstrip_nl line)")
  case None
  with assms show ?thesis by (simp add: parse_line_def)
next
  case (Some d)
  obtain kp ev where k: "decide_keep (payload_of lds (grp d ''msg'')) (grp d ''msg'') = (kp, ev)"
    by (cases "decide_keep (payload_of lds (grp d ''msg'')) (grp d ''msg'')")
  from assms Some k have "kp" "r = build_out d (payload_of lds (grp d ''msg'')) ev"
    by (auto simp: parse_line_def Let_def split: if_splits)
  with Some k that show ?thesis by simp
qed

lemma rstrip_nl_no_trailing: "rstrip_nl s \<noteq> u @ [CHR 0x0A]"
proof
  assume a: "rstrip_nl s = u @ [CHR 0x0A]"
  have "rev (rstrip_nl s) = dropWhile (\<lambda>c. c = CHR 0x0A) (rev s)"
    unfolding rstrip_nl_def by simp
  with a have d: "dropWhile (\<lambda>c. c = CHR 0x0A) (rev s) = CHR 0x0A # rev u" by simp
  then have "dropWhile (\<lambda>c. c = CHR 0x0A) (rev s) \<noteq> []" by simp
  from hd_dropWhile[OF this] d show False by simp
qed

lemma map_of_dict_set:
  "map_of (dict_set d k v) k' = (if k' = k then Some v else map_of d k')"
  by (induction d) auto

lemma map_of_copy_fields:
  "map_of (copy_fields p ks out) k =
     (if k \<in> set ks \<and> dict_has p k then Some (dict_get p k) else map_of out k)"
  by (induction ks arbitrary: out) (auto simp: map_of_dict_set)

lemma build_out_other:
  assumes "k \<notin> set COMMON_FIELDS" "k \<noteq> ''json''" "k \<noteq> ''event''"
  shows "map_of (build_out d payload ev) k =
     map_of [(''ts'', JStr (grp d ''ts'')), (''thread'', JStr (grp d ''thr'')),
             (''level'', JStr (grp d ''level'')), (''target'', JStr (grp d ''target'')),
             (''line'', JInt (int (int_of_digits (grp d ''line'')))),
             (''msg'', JStr (grp d ''msg''))] k"
  using assms unfolding build_out_def Let_def
  by (simp add: map_of_copy_fields map_of_dict_set del: map_of.simps dict_set.simps)

lemma build_out_base:
  "map_of (build_out d payload ev) ''ts'' = Some (JStr (grp d ''ts''))"
  "map_of (build_out d payload ev) ''thread'' = Some (JStr (grp d ''thr''))"
  "map_of (build_out d payload ev) ''level'' = Some (JStr (grp d ''level''))"
  "map_of (build_out d payload ev) ''target'' = Some (JStr (grp d ''target''))"
  "map_of (build_out d payload ev) ''line'' = Some (JInt (int (int_of_digits (grp d ''line''))))"
  "map_of (build_out d payload ev) ''msg'' = Some (JStr (grp d ''msg''))"
  by (subst build_out_other; simp add: COMMON_FIELDS_def)+

lemma re_match_mem:
  "re_match r s = Some d \<Longrightarrow> \<exists>j t. (j, t, d) \<in> set (ms r (0, s, Map.empty))"
  by (auto simp: re_match_def split: list.splits)

lemma LINE_RE_match_grammar:
  assumes "re_match LINE_RE (rstrip_nl line) = Some d"
  shows "log_line loose_ts (rstrip_nl line) (grp d ''ts'') (grp d ''thr'') (grp d ''level'')
           (grp d ''target'') (grp d ''line'') (grp d ''msg'')"
proof -
  from re_match_mem[OF assms] obtain j t where
    "(j, t, d) \<in> set (ms LINE_RE (0, rstrip_nl line, Map.empty))" by blast
  then obtain ts w1 thr w2 lvl w3 tgt ln w4 m e j' where
    s: "rstrip_nl line = ts @ w1 @ ''['' @ thr @ '']'' @ w2 @ lvl @ w3 @ tgt @ '':'' @ ln @ w4 @ m @ e"
    and e: "e = [] \<or> e = [CHR 0x0A]"
    and x: "(j, t, d) = (j', e, [''ts'' \<mapsto> ts, ''thr'' \<mapsto> thr, ''level'' \<mapsto> lvl,
                 ''target'' \<mapsto> tgt, ''line'' \<mapsto> ln, ''msg'' \<mapsto> m])"
    and p: "loose_ts ts" "blank w1" "thr \<noteq> []" "list_all (\<lambda>c. c \<noteq> CHR '']'') thr" "blank w2"
    "lvl \<noteq> []" "list_all is_upper lvl" "blank w3"
    "tgt \<noteq> []" "list_all (\<lambda>c. \<not> is_space c) tgt"
    "ln \<noteq> []" "list_all is_digit ln" "blank w4" "list_all not_nl m"
    by (rule LINE_RE_sound)
  have "e = []"
  proof (rule ccontr)
    assume "e \<noteq> []"
    with e have "e = [CHR 0x0A]" by simp
    with s have "rstrip_nl line
       = (ts @ w1 @ ''['' @ thr @ '']'' @ w2 @ lvl @ w3 @ tgt @ '':'' @ ln @ w4 @ m) @ [CHR 0x0A]"
      by simp
    then show False using rstrip_nl_no_trailing by blast
  qed
  with s have s': "rstrip_nl line
       = ts @ w1 @ ''['' @ thr @ '']'' @ w2 @ lvl @ w3 @ tgt @ '':'' @ ln @ w4 @ m" by simp
  from x have g: "grp d ''ts'' = ts" "grp d ''thr'' = thr" "grp d ''level'' = lvl"
    "grp d ''target'' = tgt" "grp d ''line'' = ln" "grp d ''msg'' = m"
    by (simp_all add: grp_def)
  show ?thesis unfolding log_line_def g using s' p by blast
qed

text \<open>
  C3 (as amended).  \<^verbatim>\<open>parse_line\<close> returns a record only for a line that, without its
  trailing newlines, reads \<^verbatim>\<open><timestamp> [<thread>] <LEVEL> <target>:<line> <message>\<close>
  where the timestamp has the form \<^verbatim>\<open>\d{4}-\d{2}-\d{2}T[0-9:.]+Z\<close>, the level is one or more
  uppercase letters and the line number is a digit sequence; the record carries these
  parts.  Every other line yields \<^verbatim>\<open>None\<close>; \<^verbatim>\<open>parse_line\<close> is total, so no line makes the
  structural parse fail with an error.
\<close>

theorem parse_line_grammar:
  "(parse_line lds line = Some r \<longrightarrow>
      (\<exists>ts thr lvl tgt ln m.
         log_line loose_ts (rstrip_nl line) ts thr lvl tgt ln m
         \<and> map_of r ''ts'' = Some (JStr ts) \<and> map_of r ''thread'' = Some (JStr thr)
         \<and> map_of r ''level'' = Some (JStr lvl) \<and> map_of r ''target'' = Some (JStr tgt)
         \<and> map_of r ''line'' = Some (JInt (int (int_of_digits ln)))
         \<and> map_of r ''msg'' = Some (JStr m)))
   \<and> (\<not> matches_grammar loose_ts (rstrip_nl line) \<longrightarrow> parse_line lds line = None)"
proof (intro conjI impI)
  assume "parse_line lds line = Some r"
  then obtain d where d: "re_match LINE_RE (rstrip_nl line) = Some d"
    and r: "r = build_out d (payload_of lds (grp d ''msg''))
           (snd (decide_keep (payload_of lds (grp d ''msg'')) (grp d ''msg'')))"
    by (rule parse_line_Some)
  from LINE_RE_match_grammar[OF d] build_out_base[of d] r
  show "\<exists>ts thr lvl tgt ln m.
         log_line loose_ts (rstrip_nl line) ts thr lvl tgt ln m
         \<and> map_of r ''ts'' = Some (JStr ts) \<and> map_of r ''thread'' = Some (JStr thr)
         \<and> map_of r ''level'' = Some (JStr lvl) \<and> map_of r ''target'' = Some (JStr tgt)
         \<and> map_of r ''line'' = Some (JInt (int (int_of_digits ln)))
         \<and> map_of r ''msg'' = Some (JStr m)"
    by blast
next
  assume n: "\<not> matches_grammar loose_ts (rstrip_nl line)"
  show "parse_line lds line = None"
  proof (cases "re_match LINE_RE (rstrip_nl line)")
    case None
    then show ?thesis by (simp add: parse_line_def)
  next
    case (Some d)
    from LINE_RE_match_grammar[OF Some] n show ?thesis
      unfolding matches_grammar_def by blast
  qed
qed



lemma strict_ts_length: "strict_ts ts \<Longrightarrow> length ts = 27"
  unfolding strict_ts_def shaped_def by (drule list_all2_lengthD) simp

text \<open>
  The timestamp need not have the strict shape \<^verbatim>\<open>YYYY-MM-DDTHH:MM:SS.ffffffZ\<close>: the line
  \<^verbatim>\<open>2026-02-17T1Z [t] INFO a:1 Vote\<close> is accepted.
\<close>

theorem short_timestamp_accepted:
  "parse_line sample_loads line_short_ts \<noteq> None
   \<and> \<not> matches_grammar strict_ts (rstrip_nl line_short_ts)"
proof
  show "parse_line sample_loads line_short_ts \<noteq> None" by code_simp
next
  have r: "rstrip_nl line_short_ts = ''2026-02-17T1Z [t] INFO a:1 Vote''" by code_simp
  show "\<not> matches_grammar strict_ts (rstrip_nl line_short_ts)"
  proof
    assume "matches_grammar strict_ts (rstrip_nl line_short_ts)"
    then obtain ts rest where s: "''2026-02-17T1Z [t] INFO a:1 Vote'' = ts @ rest" and t: "strict_ts ts"
      unfolding matches_grammar_def log_line_def r by blast
    from strict_ts_length[OF t] s have "ts = take 27 ''2026-02-17T1Z [t] INFO a:1 Vote''"
      by (metis append_eq_conv_conj)
    then have "ts = ''2026-02-17T1Z [t] INFO a:1 ''" by simp
    with t show False by (simp add: strict_ts_def shaped_def is_digit_def)
  qed
qed

lemma loose_ts_hd: "loose_ts ts \<Longrightarrow> ts \<noteq> [] \<and> is_digit (hd ts)"
  unfolding loose_ts_def shaped_def by (auto simp: list_all2_Cons1)

theorem parse_line_grammar_witness:
  "parse_line sample_loads line_newround
     = Some [(''ts'', JStr ''2026-02-17T11:09:42.000001Z''), (''thread'', JStr ''consensus-4''),
             (''level'', JStr ''WARN''), (''target'', JStr ''consensus/src/round_state.rs''),
             (''line'', JInt 77), (''msg'', JStr ''NewRound event triggered'')]
   \<and> (\<exists>thr lvl tgt ln m.
        log_line loose_ts (rstrip_nl line_newround) ''2026-02-17T11:09:42.000001Z'' thr lvl tgt ln m)
   \<and> \<not> matches_grammar loose_ts (rstrip_nl line_noise)
   \<and> parse_line sample_loads line_noise = None"
proof -
  let ?r = "[(''ts'', JStr ''2026-02-17T11:09:42.000001Z''), (''thread'', JStr ''consensus-4''),
             (''level'', JStr ''WARN''), (''target'', JStr ''consensus/src/round_state.rs''),
             (''line'', JInt 77), (''msg'', JStr ''NewRound event triggered'')]"
  have h: "parse_line sample_loads line_newround = Some ?r" by code_simp
  have n: "\<not> matches_grammar loose_ts (rstrip_nl line_noise)"
  proof
    assume "matches_grammar loose_ts (rstrip_nl line_noise)"
    then obtain ts rest where s: "rstrip_nl line_noise = ts @ rest" and t: "loose_ts ts"
      unfolding matches_grammar_def log_line_def by blast
    from loose_ts_hd[OF t] s have "is_digit (hd (rstrip_nl line_noise))" by (cases ts) auto
    moreover have "hd (rstrip_nl line_noise) = CHR '' ''" by code_simp
    ultimately show False by (simp add: is_digit_def)
  qed
  from parse_line_grammar[of sample_loads line_newround ?r] h obtain ts thr lvl tgt ln m where
    g: "log_line loose_ts (rstrip_nl line_newround) ts thr lvl tgt ln m"
    and f: "map_of ?r ''ts'' = Some (JStr ts)" by blast
  from f have e: "ts = ''2026-02-17T11:09:42.000001Z''" by simp
  from parse_line_grammar[of sample_loads line_noise] n have z: "parse_line sample_loads line_noise = None" by blast
  from g e have "\<exists>thr lvl tgt ln m.
        log_line loose_ts (rstrip_nl line_newround) ''2026-02-17T11:09:42.000001Z'' thr lvl tgt ln m"
    by blast
  with h n z show ?thesis by blast
qed

section \<open>The embedded payload\<close>

lemma last_close_Nil [simp]: "last_close [] = []"
  by (simp add: last_close_def)






















section \<open>The resolution of run directories\<close>

lemma iterdir_set: "(p, x) \<in> set (iterdir d es) \<longleftrightarrow> (\<exists>n. p = d @ [n] \<and> (n, x) \<in> set es)"
  by (auto simp: iterdir_def)

lemma walk_set:
  "(p, x) \<in> set (walk d es)
     \<longleftrightarrow> (\<exists>n ds. (n, Dir ds) \<in> set es \<and> (p, x) \<in> set (rglob (d @ [n]) ds))"
proof (induction es)
  case Nil
  then show ?case by simp
next
  case (Cons a es)
  obtain n y where a: "a = (n, y)" by (cases a)
  show ?case
  proof (cases y)
    case (File ls bad)
    with a Cons.IH show ?thesis by auto
  next
    case (Dir ds)
    with a Cons.IH show ?thesis by (auto simp: rglob_def)
  qed
qed

lemma rglob_set:
  "(p, x) \<in> set (rglob d es)
     \<longleftrightarrow> (\<exists>n. p = d @ [n] \<and> (n, x) \<in> set es)
         \<or> (\<exists>n ds. (n, Dir ds) \<in> set es \<and> (p, x) \<in> set (rglob (d @ [n]) ds))"
  unfolding rglob_def[of d es] by (simp add: iterdir_set walk_set del: walk.simps)

lemma below_rglob: "below es n x \<Longrightarrow> \<exists>p. (p, x) \<in> set (rglob d es) \<and> path_name p = n"
proof (induction arbitrary: d rule: below.induct)
  case (here n x es)
  then have "(d @ [n], x) \<in> set (rglob d es)" by (subst rglob_set) blast
  then show ?case by (intro exI[of _ "d @ [n]"]) (simp add: path_name_def)
next
  case (deeper m ds es n x)
  from deeper.IH[of "d @ [m]"] obtain p where
    p: "(p, x) \<in> set (rglob (d @ [m]) ds)" "path_name p = n" by blast
  from deeper.hyps(1) p(1) have "(p, x) \<in> set (rglob d es)" by (subst rglob_set) blast
  with p(2) show ?case by blast
qed

lemma rglob_File_Cons:
  "set (rglob base ((n, File ls bad) # es))
     = insert (base @ [n], File ls bad) (set (rglob base es))"
  by (auto simp: rglob_def iterdir_def)

lemma rglob_Dir_Cons:
  "set (rglob base ((n, Dir ds) # es))
     = insert (base @ [n], Dir ds) (set (rglob (base @ [n]) ds) \<union> set (rglob base es))"
  by (auto simp: rglob_def iterdir_def)

lemma below_Cons: "below es n x \<Longrightarrow> below (a # es) n x"
  by (induction rule: below.induct) (auto intro: below.intros)

lemma rglob_below: "(p, x) \<in> set (rglob d es) \<Longrightarrow> below es (path_name p) x"
proof (induction d es arbitrary: p x rule: walk.induct)
  case (1 base)
  then show ?case by (simp add: rglob_def iterdir_def)
next
  case (2 base n ls bad es)
  from "2.prems"[unfolded rglob_File_Cons]
  consider "p = base @ [n]" "x = File ls bad" | "(p, x) \<in> set (rglob base es)"
    by blast
  then show ?case
  proof cases
    case 1
    then show ?thesis by (auto simp: path_name_def intro: below.here)
  next
    case 2
    from "2.IH"[OF this] show ?thesis by (rule below_Cons)
  qed
next
  case (3 base n ds es)
  from "3.prems"[unfolded rglob_Dir_Cons]
  consider "p = base @ [n]" "x = Dir ds" | "(p, x) \<in> set (rglob (base @ [n]) ds)"
    | "(p, x) \<in> set (rglob base es)"
    by blast
  then show ?case
  proof cases
    case 1
    then show ?thesis by (auto simp: path_name_def intro: below.here)
  next
    case 2
    from "3.IH"(1)[OF this] show ?thesis by (auto intro: below.deeper)
  next
    case 3
    from "3.IH"(2)[OF this] show ?thesis by (rule below_Cons)
  qed
qed

lemma looks_like_run_dir_iff: "looks_like_run_dir d es \<longleftrightarrow> has_node_log es"
proof
  assume "looks_like_run_dir d es"
  then obtain p x where px: "(p, x) \<in> set (rglob d es)" "is_node_log (p, x)"
    unfolding looks_like_run_dir_def list_ex_iff by auto
  then obtain ls bad where "x = File ls bad" "node_of_name (path_name p) \<noteq> None"
    by (cases x) (auto simp: is_node_log_def)
  with rglob_below[OF px(1)] show "has_node_log es" unfolding has_node_log_def by blast
next
  assume "has_node_log es"
  then obtain n ls bad where b: "below es n (File ls bad)" "node_of_name n \<noteq> None"
    unfolding has_node_log_def by blast
  from below_rglob[OF b(1), of d] obtain p where
    "(p, File ls bad) \<in> set (rglob d es)" "path_name p = n" by blast
  with b(2) show "looks_like_run_dir d es"
    unfolding looks_like_run_dir_def list_ex_iff by (force simp: is_node_log_def)
qed

lemma candidates_set: "set (candidates base es) = subdirs base es"
proof -
  have "set (candidates base es)
      = {(p, ds). (p, Dir ds) \<in> set (iterdir base es)}"
    unfolding candidates_def
    by (auto simp: List.map_filter_def split: fsnode.splits) force+
  also have "\<dots> = subdirs base es"
    unfolding subdirs_def by (auto simp: iterdir_set)
  finally show ?thesis .
qed

lemma candidates_sorted: "sorted (map fst (candidates base es))"
  unfolding candidates_def by (rule sorted_sort_key)

lemma sibling_le: "base @ [a] \<le> base @ [b] \<longleftrightarrow> a \<le> (b :: string)"
  by (induction base) auto

lemma sorted_names:
  assumes "sorted (map fst xs)" "set xs \<subseteq> subdirs base es"
  shows "sorted (map (path_name \<circ> fst) (xs :: (path \<times> entries) list))"
  using assms
proof (induction xs)
  case Nil
  then show ?case by simp
next
  case (Cons x xs)
  from Cons.prems(2) obtain a where a: "fst x = base @ [a]" by (auto simp: subdirs_def)
  have "path_name (fst x) \<le> path_name (fst y)" if "y \<in> set xs" for y
  proof -
    from that Cons.prems(2) obtain b where b: "fst y = base @ [b]" by (auto simp: subdirs_def)
    from Cons.prems(1) that have "fst x \<le> fst y" by auto
    with a b show ?thesis by (simp add: sibling_le path_name_def)
  qed
  with Cons show ?case by auto
qed

lemma hinted_list_set: "set (hinted_list h base es) = hinted_dirs h base es"
  unfolding hinted_list_def hinted_dirs_def expected_run_prefix_def
  by (auto simp: candidates_set looks_like_run_dir_iff split: option.splits)

lemma autodetected_set:
  "set (filter (\<lambda>(d, ds). looks_like_run_dir d ds) (candidates base es))
     = autodetected_dirs base es"
  unfolding autodetected_dirs_def by (auto simp: candidates_set looks_like_run_dir_iff)

lemma find_run_dirs_unfold:
  "find_run_dirs h base es =
     (if hinted_list h base es \<noteq> [] then hinted_list h base es
      else if filter (\<lambda>(d, ds). looks_like_run_dir d ds) (candidates base es) \<noteq> []
           then filter (\<lambda>(d, ds). looks_like_run_dir d ds) (candidates base es)
      else if looks_like_run_dir base es then [(base, es)] else [])"
  by (simp add: find_run_dirs_def hinted_list_def Let_def)

lemma hinted_list_sorted: "sorted (map fst (hinted_list h base es))"
  unfolding hinted_list_def
  by (auto intro!: sorted_filter candidates_sorted split: option.splits)

text \<open>
  C5 (as amended).  \<^verbatim>\<open>find_run_dirs\<close> follows the four steps in order: the immediate
  subdirectories whose names start with \<^verbatim>\<open><test_name>_<sched_type>_\<close> and that hold a node
  log somewhere below them, when both hints are set to non-empty texts and there is such
  a subdirectory; otherwise the immediate subdirectories that hold a node log somewhere
  below them, when there is one; otherwise the top-level directory alone, when it holds a
  node log; otherwise nothing.  The result is ordered by path, hence by name.
\<close>

theorem find_run_dirs_precedence:
  "(hinted_dirs h base es \<noteq> {} \<longrightarrow> set (find_run_dirs h base es) = hinted_dirs h base es)
   \<and> (hinted_dirs h base es = {} \<and> autodetected_dirs base es \<noteq> {} \<longrightarrow>
        set (find_run_dirs h base es) = autodetected_dirs base es)
   \<and> (hinted_dirs h base es = {} \<and> autodetected_dirs base es = {} \<and> has_node_log es \<longrightarrow>
        find_run_dirs h base es = [(base, es)])
   \<and> (hinted_dirs h base es = {} \<and> autodetected_dirs base es = {} \<and> \<not> has_node_log es \<longrightarrow>
        find_run_dirs h base es = [])
   \<and> sorted (map fst (find_run_dirs h base es))
   \<and> sorted (map (path_name \<circ> fst) (find_run_dirs h base es))"
proof -
  let ?H = "hinted_list h base es"
  let ?A = "filter (\<lambda>(d, ds). looks_like_run_dir d ds) (candidates base es)"
  have H: "?H = [] \<longleftrightarrow> hinted_dirs h base es = {}"
    using hinted_list_set[of h base es] by auto
  have A: "?A = [] \<longleftrightarrow> autodetected_dirs base es = {}"
    using autodetected_set[of base es] by (metis set_empty)
  have sA: "sorted (map fst ?A)" by (intro sorted_filter candidates_sorted)
  have sorted1: "sorted (map fst (find_run_dirs h base es))"
    unfolding find_run_dirs_unfold using hinted_list_sorted[of h base es] sA by simp
  have sub: "find_run_dirs h base es = [(base, es)] \<or> set (find_run_dirs h base es) \<subseteq> subdirs base es"
    unfolding find_run_dirs_unfold
    using hinted_list_set[of h base es] autodetected_set[of base es]
    by (auto simp: hinted_dirs_def autodetected_dirs_def)
  have sorted2: "sorted (map (path_name \<circ> fst) (find_run_dirs h base es))"
    using sub sorted_names[OF sorted1] by auto
  show ?thesis
  proof (intro conjI impI)
    assume "hinted_dirs h base es \<noteq> {}"
    with H have "find_run_dirs h base es = ?H" by (simp add: find_run_dirs_unfold)
    then show "set (find_run_dirs h base es) = hinted_dirs h base es"
      by (simp add: hinted_list_set)
  next
    assume "hinted_dirs h base es = {} \<and> autodetected_dirs base es \<noteq> {}"
    with H A have "find_run_dirs h base es = ?A" by (simp add: find_run_dirs_unfold)
    then show "set (find_run_dirs h base es) = autodetected_dirs base es"
      by (simp only: autodetected_set)
  next
    assume "hinted_dirs h base es = {} \<and> autodetected_dirs base es = {} \<and> has_node_log es"
    with H A have "find_run_dirs h base es
        = (if looks_like_run_dir base es then [(base, es)] else [])"
      by (simp add: find_run_dirs_unfold)
    with \<open>hinted_dirs h base es = {} \<and> autodetected_dirs base es = {} \<and> has_node_log es\<close>
    show "find_run_dirs h base es = [(base, es)]"
      by (simp add: looks_like_run_dir_iff)
  next
    assume "hinted_dirs h base es = {} \<and> autodetected_dirs base es = {} \<and> \<not> has_node_log es"
    with H A have "find_run_dirs h base es
        = (if looks_like_run_dir base es then [(base, es)] else [])"
      by (simp add: find_run_dirs_unfold)
    with \<open>hinted_dirs h base es = {} \<and> autodetected_dirs base es = {} \<and> \<not> has_node_log es\<close>
    show "find_run_dirs h base es = []"
      by (simp add: looks_like_run_dir_iff)
  qed (rule sorted1 sorted2)+
qed

text \<open>
  A hint that is set to the empty text is not used: with \<^verbatim>\<open>TEST_NAME=""\<close> and
  \<^verbatim>\<open>SCHED_TYPE="pct"\<close> the directory \<^verbatim>\<open>zzz\<close> is returned next to \<^verbatim>\<open>_pct_0\<close>.
\<close>

theorem empty_hint_ignored:
  "TEST_NAME empty_name_hints = Some [] \<and> SCHED_TYPE empty_name_hints = Some ''pct''
   \<and> prefix ([] @ ''_'' @ ''pct'' @ ''_'') ''_pct_0''
   \<and> looks_like_run_dir [''root'', ''_pct_0''] log_dir
   \<and> \<not> prefix ([] @ ''_'' @ ''pct'' @ ''_'') ''zzz''
   \<and> map fst (find_run_dirs empty_name_hints [''root''] odd_root)
       = [[''root'', ''_pct_0''], [''root'', ''zzz'']]"
  by code_simp

theorem find_run_dirs_precedence_witness:
  "hinted_dirs sample_hints [''root''] hinted_root \<noteq> {}
   \<and> set (find_run_dirs sample_hints [''root''] hinted_root)
       = hinted_dirs sample_hints [''root''] hinted_root
   \<and> map fst (find_run_dirs sample_hints [''root''] hinted_root)
       = [[''root'', ''aptos_pct_0''], [''root'', ''aptos_pct_1'']]
   \<and> hinted_dirs other_hints [''root''] hinted_root = {}
   \<and> autodetected_dirs [''root''] hinted_root \<noteq> {}
   \<and> set (find_run_dirs other_hints [''root''] hinted_root) = autodetected_dirs [''root''] hinted_root
   \<and> map fst (find_run_dirs other_hints [''root''] hinted_root)
       = [[''root'', ''aptos_pct_0''], [''root'', ''aptos_pct_1''], [''root'', ''other_run'']]
   \<and> hinted_dirs no_hints [''root''] log_dir = {}
   \<and> autodetected_dirs [''root''] log_dir = {}
   \<and> has_node_log log_dir
   \<and> find_run_dirs no_hints [''root''] log_dir = [([''root''], log_dir)]
   \<and> hinted_dirs no_hints [''root''] notes_dir = {}
   \<and> autodetected_dirs [''root''] notes_dir = {}
   \<and> \<not> has_node_log notes_dir
   \<and> find_run_dirs no_hints [''root''] notes_dir = []"
proof -
  have "hinted_list sample_hints [''root''] hinted_root \<noteq> []" by code_simp
  then have a1: "hinted_dirs sample_hints [''root''] hinted_root \<noteq> {}"
    using hinted_list_set[of sample_hints "[''root'']" hinted_root] by auto
  have a2: "map fst (find_run_dirs sample_hints [''root''] hinted_root)
       = [[''root'', ''aptos_pct_0''], [''root'', ''aptos_pct_1'']]" by code_simp
  have "hinted_list other_hints [''root''] hinted_root = []" by code_simp
  then have b1: "hinted_dirs other_hints [''root''] hinted_root = {}"
    using hinted_list_set[of other_hints "[''root'']" hinted_root] by auto
  have "filter (\<lambda>(d, ds). looks_like_run_dir d ds) (candidates [''root''] hinted_root) \<noteq> []"
    by code_simp
  then have b2: "autodetected_dirs [''root''] hinted_root \<noteq> {}"
    using autodetected_set[of "[''root'']" hinted_root] by (metis set_empty)
  have b3: "map fst (find_run_dirs other_hints [''root''] hinted_root)
       = [[''root'', ''aptos_pct_0''], [''root'', ''aptos_pct_1''], [''root'', ''other_run'']]"
    by code_simp
  have "hinted_list no_hints [''root''] log_dir = []" by code_simp
  then have c1: "hinted_dirs no_hints [''root''] log_dir = {}"
    using hinted_list_set[of no_hints "[''root'']" log_dir] by auto
  have "filter (\<lambda>(d, ds). looks_like_run_dir d ds) (candidates [''root''] log_dir) = []"
    by code_simp
  then have c2: "autodetected_dirs [''root''] log_dir = {}"
    using autodetected_set[of "[''root'']" log_dir] by (metis set_empty)
  have "looks_like_run_dir [''root''] log_dir" by code_simp
  then have c3: "has_node_log log_dir" by (simp add: looks_like_run_dir_iff)
  have "hinted_list no_hints [''root''] notes_dir = []" by code_simp
  then have d1: "hinted_dirs no_hints [''root''] notes_dir = {}"
    using hinted_list_set[of no_hints "[''root'']" notes_dir] by auto
  have "filter (\<lambda>(d, ds). looks_like_run_dir d ds) (candidates [''root''] notes_dir) = []"
    by code_simp
  then have d2: "autodetected_dirs [''root''] notes_dir = {}"
    using autodetected_set[of "[''root'']" notes_dir] by (metis set_empty)
  have "\<not> looks_like_run_dir [''root''] notes_dir" by code_simp
  then have d3: "\<not> has_node_log notes_dir" by (simp add: looks_like_run_dir_iff)
  note t1 = find_run_dirs_precedence[of sample_hints "[''root'']" hinted_root]
  note t2 = find_run_dirs_precedence[of other_hints "[''root'']" hinted_root]
  note t3 = find_run_dirs_precedence[of no_hints "[''root'']" log_dir]
  note t4 = find_run_dirs_precedence[of no_hints "[''root'']" notes_dir]
  from t1 a1 have a3: "set (find_run_dirs sample_hints [''root''] hinted_root)
       = hinted_dirs sample_hints [''root''] hinted_root" by blast
  from t2 b1 b2 have b4: "set (find_run_dirs other_hints [''root''] hinted_root)
       = autodetected_dirs [''root''] hinted_root" by blast
  from t3 c1 c2 c3 have c4: "find_run_dirs no_hints [''root''] log_dir = [([''root''], log_dir)]"
    by blast
  from t4 d1 d2 d3 have d4: "find_run_dirs no_hints [''root''] notes_dir = []" by blast
  from a1 a2 a3 b1 b2 b3 b4 c1 c2 c3 c4 d1 d2 d3 d4 show ?thesis by blast
qed

section \<open>The sinks of a run directory\<close>

lemma digit_char_inj:
  "a < 10 \<Longrightarrow> b < 10 \<Longrightarrow> ''0123456789'' ! a = ''0123456789'' ! b \<Longrightarrow> a = b"
  by (rule nth_eq_iff_index_eq[THEN iffD1, of "''0123456789''"]) simp_all

lemma show_nat_nonempty: "show_nat n \<noteq> []"
  by (subst show_nat.simps) simp

lemma show_nat_inj: "show_nat m = show_nat n \<Longrightarrow> m = n"
proof (induction m arbitrary: n rule: less_induct)
  case (less m)
  show ?case
  proof (cases "m < 10")
    case m: True
    show ?thesis
    proof (cases "n < 10")
      case True
      with m less.prems show ?thesis
        by (simp add: show_nat.simps[of m] show_nat.simps[of n] digit_char_inj)
    next
      case False
      with m less.prems show_nat_nonempty[of "n div 10"] show ?thesis
        by (simp add: show_nat.simps[of m] show_nat.simps[of n])
    qed
  next
    case m: False
    show ?thesis
    proof (cases "n < 10")
      case True
      with m less.prems show_nat_nonempty[of "m div 10"] show ?thesis
        by (simp add: show_nat.simps[of m] show_nat.simps[of n])
    next
      case False
      with m less.prems have e: "show_nat (m div 10) = show_nat (n div 10)"
        and d: "''0123456789'' ! (m mod 10) = ''0123456789'' ! (n mod 10)"
        by (simp_all add: show_nat.simps[of m] show_nat.simps[of n])
      from m have "m div 10 < m" by simp
      from less.IH[OF this e] have "m div 10 = n div 10" .
      moreover from d have "m mod 10 = n mod 10" by (intro digit_char_inj) simp_all
      ultimately show ?thesis by (metis div_mult_mod_eq)
    qed
  qed
qed

lemma jsonl_ne_log: "s @ ''.jsonl'' \<noteq> t @ ''.log''"
proof
  assume "s @ ''.jsonl'' = t @ ''.log''"
  then have "last (s @ ''.jsonl'') = last (t @ ''.log'')" by simp
  then show False by simp
qed

lemma sink_distinct [simp]:
  "all_jsonl od \<noteq> all_log od" "all_log od \<noteq> all_jsonl od"
  "all_jsonl od \<noteq> node_jsonl od i" "node_jsonl od i \<noteq> all_jsonl od"
  "all_jsonl od \<noteq> node_log od i" "node_log od i \<noteq> all_jsonl od"
  "all_log od \<noteq> node_jsonl od i" "node_jsonl od i \<noteq> all_log od"
  "all_log od \<noteq> node_log od i" "node_log od i \<noteq> all_log od"
  "node_jsonl od i \<noteq> node_log od j" "node_log od j \<noteq> node_jsonl od i"
  using jsonl_ne_log[of "show_nat i" "show_nat j"]
  by (auto simp: all_jsonl_def all_log_def node_jsonl_def node_log_def)

lemma node_sink_inj [simp]:
  "node_jsonl od i = node_jsonl od j \<longleftrightarrow> i = j"
  "node_log od i = node_log od j \<longleftrightarrow> i = j"
  by (auto simp: node_jsonl_def node_log_def dest: show_nat_inj)

lemma dict_get_dict_set: "k' \<noteq> k \<Longrightarrow> dict_get (dict_set d k v) k' = dict_get d k'"
  by (simp add: dict_get_def map_of_dict_set)

lemma pretty_line_enrich: "pretty_line (enrich r f rn i) = pretty_line r"
  by (simp add: pretty_line_def enrich_def dict_get_dict_set)

lemma open_w_reliable: "reliable e \<Longrightarrow> open_w e p fs = (None, fs(p \<mapsto> []))"
  by (simp add: open_w_def reliable_def)

lemma write_chunk_reliable:
  "reliable e \<Longrightarrow> write_chunk e p c fs = (None, fs(p \<mapsto> content fs p @ [c]))"
  by (simp add: write_chunk_def reliable_def)

lemma content_upd: "content (fs(p \<mapsto> cs)) q = (if q = p then cs else content fs q)"
  by (simp add: content_def)

lemma write_record_reliable:
  assumes "reliable e" "jf \<noteq> tf"
  shows "write_record e dmp jf tf r f rn i fs
     = (None, fs(jf \<mapsto> content fs jf @ [structured dmp rn (f, i, r)],
                 tf \<mapsto> content fs tf @ [pretty (f, i, r)]))"
  using assms
  by (simp add: write_record_def Let_def write_chunk_reliable content_upd structured_def
        pretty_def pretty_line_enrich)

lemma node_ids_append [simp]: "node_ids (K @ [(f, i, r)]) = insert i (node_ids K)"
  by (auto simp: node_ids_def)

lemma for_node_none: "i \<notin> node_ids K \<Longrightarrow> for_node i K = []"
  by (auto simp: for_node_def node_ids_def filter_empty_conv)

lemma content_sinks:
  "content (fs0 ++ sinks_of od dmp rn K) (all_jsonl od) = map (structured dmp rn) K"
  "content (fs0 ++ sinks_of od dmp rn K) (all_log od) = map pretty K"
  "i \<in> node_ids K \<Longrightarrow>
     content (fs0 ++ sinks_of od dmp rn K) (node_jsonl od i) = map (structured dmp rn) (for_node i K)"
  "i \<in> node_ids K \<Longrightarrow>
     content (fs0 ++ sinks_of od dmp rn K) (node_log od i) = map pretty (for_node i K)"
  by (auto simp: content_def sinks_of_def map_add_def for_node_def)

lemma sinks_step:
  "(fs0 ++ sinks_of od dmp rn K)
      (node_jsonl od i \<mapsto> map (structured dmp rn) (for_node i K) @ [structured dmp rn (f, i, r)],
       node_log od i \<mapsto> map pretty (for_node i K) @ [pretty (f, i, r)],
       all_jsonl od \<mapsto> map (structured dmp rn) K @ [structured dmp rn (f, i, r)],
       all_log od \<mapsto> map pretty K @ [pretty (f, i, r)])
   = fs0 ++ sinks_of od dmp rn (K @ [(f, i, r)])"
proof (rule ext)
  fix p
  consider "p = all_jsonl od" | "p = all_log od" | "p = node_jsonl od i" | "p = node_log od i"
    | "p \<noteq> all_jsonl od" "p \<noteq> all_log od" "p \<noteq> node_jsonl od i" "p \<noteq> node_log od i"
    by blast
  then show "((fs0 ++ sinks_of od dmp rn K)
      (node_jsonl od i \<mapsto> map (structured dmp rn) (for_node i K) @ [structured dmp rn (f, i, r)],
       node_log od i \<mapsto> map pretty (for_node i K) @ [pretty (f, i, r)],
       all_jsonl od \<mapsto> map (structured dmp rn) K @ [structured dmp rn (f, i, r)],
       all_log od \<mapsto> map pretty K @ [pretty (f, i, r)])) p
   = (fs0 ++ sinks_of od dmp rn (K @ [(f, i, r)])) p"
  proof cases
    case 1
    then show ?thesis by (simp add: sinks_of_def map_add_def)
  next
    case 2
    then show ?thesis by (simp add: sinks_of_def map_add_def)
  next
    case 3
    then show ?thesis by (simp add: sinks_of_def map_add_def for_node_def)
  next
    case 4
    then show ?thesis by (simp add: sinks_of_def map_add_def for_node_def)
  next
    case 5
    then show ?thesis by (auto simp: sinks_of_def map_add_def)
  qed
qed

lemma get_writers_known:
  assumes "sinks_inv fs0 j st K" "i \<in> node_ids K" "od = out_dir j"
  shows "get_writers e od i st = (Inr (node_jsonl od i, node_log od i), st)"
  using assms by (simp add: sinks_inv_def get_writers_def)

lemma get_writers_new:
  assumes "reliable e" "sinks_inv fs0 j st K" "i \<notin> node_ids K" "od = out_dir j"
  shows "get_writers e od i st
     = (Inr (node_jsonl od i, node_log od i),
        st\<lparr>files := (files st)(node_jsonl od i \<mapsto> [], node_log od i \<mapsto> []),
           writers := (writers st)(i \<mapsto> (node_jsonl od i, node_log od i))\<rparr>)"
  using assms by (simp add: sinks_inv_def get_writers_def open_w_reliable Let_def)

lemma process_line_kept:
  assumes rel: "reliable (env j)" and I: "sinks_inv fs0 j st K"
    and p: "parse_line (loads j) line = Some r" and l: "\<not> level_dropped (level_set j) r"
  shows "\<exists>st'. process_line j f i st line = (None, st') \<and> sinks_inv fs0 j st' (K @ [(f, i, r)])
           \<and> scanned st' = Suc (scanned st) \<and> kept st' = Suc (kept st)"
proof -
  let ?od = "out_dir j"
  let ?st = "st\<lparr>scanned := Suc (scanned st)\<rparr>"
  let ?F = "fs0 ++ sinks_of ?od (dumps j) (run_name j) K"
  let ?k = "(f, i, r)"
  have I': "sinks_inv fs0 j ?st K" using I by (simp add: sinks_inv_def)
  have F: "files st = ?F" using I by (simp add: sinks_inv_def)
  let ?new = "?F(node_jsonl ?od i \<mapsto> map (structured (dumps j) (run_name j)) (for_node i K)
                      @ [structured (dumps j) (run_name j) ?k],
       node_log ?od i \<mapsto> map pretty (for_node i K) @ [pretty ?k],
       all_jsonl ?od \<mapsto> map (structured (dumps j) (run_name j)) K
                      @ [structured (dumps j) (run_name j) ?k],
       all_log ?od \<mapsto> map pretty K @ [pretty ?k])"
  have W: "(\<lambda>i'. if i' \<in> insert i (node_ids K)
                 then Some (node_jsonl ?od i', node_log ?od i') else None)
         = (if i \<in> node_ids K then writers st
            else (writers st)(i \<mapsto> (node_jsonl ?od i, node_log ?od i)))"
    using I by (auto simp: sinks_inv_def)
  show ?thesis
  proof (cases "i \<in> node_ids K")
    case True
    have g: "get_writers (env j) ?od i ?st = (Inr (node_jsonl ?od i, node_log ?od i), ?st)"
      by (rule get_writers_known[OF I' True refl])
    have "process_line j f i st line
        = (None, ?st\<lparr>files := ?new, kept := Suc (kept st)\<rparr>)"
      using p l True
      by (simp add: process_line_def Let_def g write_record_reliable[OF rel] F content_upd
            content_sinks)
    moreover have "sinks_inv fs0 j (?st\<lparr>files := ?new, kept := Suc (kept st)\<rparr>) (K @ [?k])"
      using True W by (simp add: sinks_inv_def sinks_step)
    ultimately show ?thesis by simp
  next
    case False
    have g: "get_writers (env j) ?od i ?st
       = (Inr (node_jsonl ?od i, node_log ?od i),
          ?st\<lparr>files := (files ?st)(node_jsonl ?od i \<mapsto> [], node_log ?od i \<mapsto> []),
             writers := (writers ?st)(i \<mapsto> (node_jsonl ?od i, node_log ?od i))\<rparr>)"
      by (rule get_writers_new[OF rel I' False refl])
    have "process_line j f i st line
        = (None, ?st\<lparr>files := ?new,
                      writers := (writers st)(i \<mapsto> (node_jsonl ?od i, node_log ?od i)),
                      kept := Suc (kept st)\<rparr>)"
      using p l False
      by (simp add: process_line_def Let_def g write_record_reliable[OF rel] F content_upd
            content_sinks for_node_none fun_upd_twist)
    moreover have "sinks_inv fs0 j (?st\<lparr>files := ?new,
                      writers := (writers st)(i \<mapsto> (node_jsonl ?od i, node_log ?od i)),
                      kept := Suc (kept st)\<rparr>) (K @ [?k])"
      using False W by (simp add: sinks_inv_def sinks_step)
    ultimately show ?thesis by simp
  qed
qed

lemma process_line_skipped:
  assumes "kept_of_line (loads j) (level_set j) f i line = []"
  shows "process_line j f i st line = (None, st\<lparr>scanned := scanned st + 1\<rparr>)"
  using assms
  by (auto simp: process_line_def kept_of_line_def Let_def split: option.splits if_splits)

lemma process_line_reliable:
  assumes "reliable (env j)" "sinks_inv fs0 j st K"
  shows "\<exists>st'. process_line j f i st line = (None, st')
           \<and> sinks_inv fs0 j st' (K @ kept_of_line (loads j) (level_set j) f i line)
           \<and> scanned st' = Suc (scanned st)
           \<and> kept st' = kept st + length (kept_of_line (loads j) (level_set j) f i line)"
proof (cases "kept_of_line (loads j) (level_set j) f i line = []")
  case True
  with process_line_skipped[OF True, of st] assms(2) show ?thesis
    by (simp add: sinks_inv_def)
next
  case False
  then obtain r where r: "parse_line (loads j) line = Some r" "\<not> level_dropped (level_set j) r"
    "kept_of_line (loads j) (level_set j) f i line = [(f, i, r)]"
    by (auto simp: kept_of_line_def split: option.splits if_splits)
  from process_line_kept[OF assms r(1,2), of f i] r(3) show ?thesis by simp
qed

lemma process_lines_reliable:
  assumes "reliable (env j)"
  shows "sinks_inv fs0 j st K \<Longrightarrow>
         \<exists>st'. process_lines j f i st ls = (None, st')
           \<and> sinks_inv fs0 j st' (K @ concat (map (kept_of_line (loads j) (level_set j) f i) ls))
           \<and> scanned st' = scanned st + length ls
           \<and> kept st' = kept st
                + length (concat (map (kept_of_line (loads j) (level_set j) f i) ls))"
proof (induction ls arbitrary: st K)
  case Nil
  then show ?case by simp
next
  case (Cons l ls)
  from process_line_reliable[OF assms Cons.prems, of f i l] obtain st1 where
    s: "process_line j f i st l = (None, st1)"
       "sinks_inv fs0 j st1 (K @ kept_of_line (loads j) (level_set j) f i l)"
       "scanned st1 = Suc (scanned st)"
       "kept st1 = kept st + length (kept_of_line (loads j) (level_set j) f i l)"
    by blast
  from Cons.IH[OF s(2)] obtain st' where
    t: "process_lines j f i st1 ls = (None, st')"
       "sinks_inv fs0 j st' ((K @ kept_of_line (loads j) (level_set j) f i l)
                         @ concat (map (kept_of_line (loads j) (level_set j) f i) ls))"
       "scanned st' = scanned st1 + length ls"
       "kept st' = kept st1
                + length (concat (map (kept_of_line (loads j) (level_set j) f i) ls))"
    by blast
  from s t show ?case by simp
qed

lemma process_files_reliable:
  assumes "reliable (env j)"
  shows "sinks_inv fs0 j st K \<Longrightarrow>
         \<exists>st'. process_files j st logs = (None, st')
           \<and> sinks_inv fs0 j st' (K @ kept_records (loads j) (level_set j) logs)
           \<and> scanned st' = scanned st + line_count logs
           \<and> kept st' = kept st + length (kept_records (loads j) (level_set j) logs)"
proof (induction logs arbitrary: st K)
  case Nil
  then show ?case by (simp add: kept_records_def line_count_def)
next
  case (Cons a logs)
  obtain f i ls bad where a: "a = (f, i, ls, bad)" by (cases a)
  let ?Ka = "concat (map (kept_of_line (loads j) (level_set j) f i) ls)"
  from process_lines_reliable[OF assms Cons.prems, of f i ls] obtain st1 where
    s: "process_lines j f i st ls = (None, st1)" "sinks_inv fs0 j st1 (K @ ?Ka)"
       "scanned st1 = scanned st + length ls" "kept st1 = kept st + length ?Ka"
    by blast
  then have pf: "process_file j st a = (None, st1)" by (simp add: process_file_def a)
  from Cons.IH[OF s(2)] obtain st' where
    t: "process_files j st1 logs = (None, st')"
       "sinks_inv fs0 j st' ((K @ ?Ka) @ kept_records (loads j) (level_set j) logs)"
       "scanned st' = scanned st1 + line_count logs"
       "kept st' = kept st1 + length (kept_records (loads j) (level_set j) logs)"
    by blast
  have K: "kept_records (loads j) (level_set j) ((f, i, ls, bad) # logs)
         = ?Ka @ kept_records (loads j) (level_set j) logs"
    by (simp add: kept_records_def)
  from pf s t show ?case by (simp add: K line_count_def a)
qed

lemma sinks_of_Nil:
  "(fs(all_jsonl od \<mapsto> [], all_log od \<mapsto> [])) = fs ++ sinks_of od dmp rn []"
  by (rule ext) (simp add: sinks_of_def map_add_def node_ids_def)

lemma filter_one_run_dir_reliable:
  assumes "reliable e"
  shows "filter_one_run_dir e dmp lds rd es od lv fs
     = (Inr (line_count (iter_log_files rd es),
             length (kept_records lds lv (iter_log_files rd es))),
        fs ++ sinks_of od dmp (path_name rd) (kept_records lds lv (iter_log_files rd es)))"
proof -
  let ?j = "\<lparr>env = e, dumps = dmp, loads = lds, level_set = lv, out_dir = od,
             run_name = path_name rd\<rparr>"
  let ?st0 = "\<lparr>files = fs(all_jsonl od \<mapsto> [], all_log od \<mapsto> []), writers = Map.empty,
               scanned = 0, kept = 0\<rparr>"
  have rel: "reliable (env ?j)" using assms by simp
  have I: "sinks_inv fs ?j ?st0 []"
    by (simp add: sinks_inv_def sinks_of_Nil[of fs od dmp "path_name rd"] node_ids_def)
  from process_files_reliable[OF rel I, of "iter_log_files rd es"] obtain st' where
    t: "process_files ?j ?st0 (iter_log_files rd es) = (None, st')"
       "sinks_inv fs ?j st' (kept_records lds lv (iter_log_files rd es))"
       "scanned st' = line_count (iter_log_files rd es)"
       "kept st' = length (kept_records lds lv (iter_log_files rd es))"
    by auto
  from assms have n: "\<not> mkdir_fails e od" by (simp add: reliable_def)
  show ?thesis
    using t n by (simp add: filter_one_run_dir_def open_w_reliable[OF assms] sinks_inv_def)
qed







lemma reliable_io_ok: "reliable io_ok"
  by (simp add: reliable_def io_ok_def)









section \<open>The level filter\<close>

lemma kept_of_line_level:
  "kept_of_line lds lv f i line
     = filter (\<lambda>(f, i, r). \<not> level_dropped lv r) (kept_of_line lds None f i line)"
  by (simp add: kept_of_line_def level_dropped_def split: option.splits)

lemma kept_records_level:
  "kept_records lds lv logs
     = filter (\<lambda>(f, i, r). \<not> level_dropped lv r) (kept_records lds None logs)"
proof -
  have "concat (map (kept_of_line lds lv f i) ls)
      = filter (\<lambda>(f, i, r). \<not> level_dropped lv r) (concat (map (kept_of_line lds None f i) ls))"
    for f i ls
    by (induction ls) (simp_all add: kept_of_line_level[of lds lv])
  then show ?thesis
    unfolding kept_records_def by (induction logs) (auto simp: filter_concat)
qed


text \<open>
  C8 (as amended).  With a level set that holds at least one level, the kept records are
  the relevance-accepted records whose level is in the set; a record whose level is not
  in it reaches no sink and leaves \<open>kept\<close> as it is.  With no level set, or an empty one,
  every relevance-accepted record is kept.  While no sink operation raises, the kept
  records are exactly what is written and what \<open>kept\<close> counts.
\<close>

theorem level_filter:
  "(\<forall>S. lv = Some S \<and> S \<noteq> {} \<longrightarrow>
        kept_records lds lv logs
          = filter (\<lambda>(f, i, r). str_of (dict_get r ''level'') \<in> S) (kept_records lds None logs))
   \<and> (lv = None \<or> lv = Some {} \<longrightarrow> kept_records lds lv logs = kept_records lds None logs)
   \<and> (reliable e \<longrightarrow>
        filter_one_run_dir e dmp lds rd es od lv fs
          = (Inr (line_count (iter_log_files rd es),
                  length (kept_records lds lv (iter_log_files rd es))),
             fs ++ sinks_of od dmp (path_name rd) (kept_records lds lv (iter_log_files rd es))))
   \<and> (\<forall>S. parse_line (loads j) line = Some r \<and> level_set j = Some S \<and> S \<noteq> {}
           \<and> str_of (dict_get r ''level'') \<notin> S \<longrightarrow>
        process_line j f i st line = (None, st\<lparr>scanned := scanned st + 1\<rparr>))"
proof (intro conjI allI impI)
  fix S assume "lv = Some S \<and> S \<noteq> {}"
  then show "kept_records lds lv logs
          = filter (\<lambda>(f, i, r). str_of (dict_get r ''level'') \<in> S) (kept_records lds None logs)"
    by (subst kept_records_level) (simp add: level_dropped_def)
next
  assume "lv = None \<or> lv = Some {}"
  then show "kept_records lds lv logs = kept_records lds None logs"
    by (subst kept_records_level) (auto simp: level_dropped_def)
next
  assume "reliable e"
  then show "filter_one_run_dir e dmp lds rd es od lv fs
          = (Inr (line_count (iter_log_files rd es),
                  length (kept_records lds lv (iter_log_files rd es))),
             fs ++ sinks_of od dmp (path_name rd) (kept_records lds lv (iter_log_files rd es)))"
    by (rule filter_one_run_dir_reliable)
next
  fix S assume "parse_line (loads j) line = Some r \<and> level_set j = Some S \<and> S \<noteq> {}
           \<and> str_of (dict_get r ''level'') \<notin> S"
  then show "process_line j f i st line = (None, st\<lparr>scanned := scanned st + 1\<rparr>)"
    by (simp add: process_line_def Let_def level_dropped_def)
qed


theorem level_filter_witness:
  "kept_records sample_loads (Some {''WARN''}) (iter_log_files sample_rd sample_run)
     = filter (\<lambda>(f, i, r). str_of (dict_get r ''level'') \<in> {''WARN''})
         (kept_records sample_loads None (iter_log_files sample_rd sample_run))
   \<and> length (kept_records sample_loads None (iter_log_files sample_rd sample_run)) = 2
   \<and> length (kept_records sample_loads (Some {''WARN''}) (iter_log_files sample_rd sample_run)) = 1
   \<and> kept_records sample_loads (Some {}) (iter_log_files sample_rd sample_run)
       = kept_records sample_loads None (iter_log_files sample_rd sample_run)
   \<and> reliable io_ok
   \<and> fst (filter_one_run_dir io_ok sample_dumps sample_loads sample_rd sample_run sample_out
            (Some {''WARN''}) Map.empty) = Inr (3, 1)
   \<and> parse_line (loads warn_job) line_vote = Some (the (parse_line (loads warn_job) line_vote))
   \<and> str_of (dict_get (the (parse_line (loads warn_job) line_vote)) ''level'') = ''INFO''
   \<and> process_line warn_job [''root'', ''run_pct_0'', ''stdout_0.log''] 0 fresh_state line_vote
       = (None, fresh_state\<lparr>scanned := scanned fresh_state + 1\<rparr>)"
proof -
  let ?logs = "iter_log_files sample_rd sample_run"
  note t = level_filter[of "Some {''WARN''}" sample_loads ?logs io_ok sample_dumps sample_rd
      sample_run sample_out Map.empty warn_job line_vote "the (parse_line (loads warn_job) line_vote)"
      "[''root'', ''run_pct_0'', ''stdout_0.log'']" 0 fresh_state]
  note u = level_filter[of "Some {}" sample_loads ?logs]
  have a: "length (kept_records sample_loads None ?logs) = 2"
    "length (kept_records sample_loads (Some {''WARN''}) ?logs) = 1"
    "line_count ?logs = 3" by code_simp+
  have "parse_line (loads warn_job) line_vote \<noteq> None" by code_simp
  then have b: "parse_line (loads warn_job) line_vote
                  = Some (the (parse_line (loads warn_job) line_vote))" by simp
  have c: "str_of (dict_get (the (parse_line (loads warn_job) line_vote)) ''level'') = ''INFO''"
    by code_simp
  have d: "level_set warn_job = Some {''WARN''}" by (simp add: warn_job_def)
  from t have 1: "kept_records sample_loads (Some {''WARN''}) ?logs
     = filter (\<lambda>(f, i, r). str_of (dict_get r ''level'') \<in> {''WARN''})
         (kept_records sample_loads None ?logs)" by blast
  from u have 2: "kept_records sample_loads (Some {}) ?logs = kept_records sample_loads None ?logs"
    by blast
  from t reliable_io_ok a have 3: "fst (filter_one_run_dir io_ok sample_dumps sample_loads sample_rd
            sample_run sample_out (Some {''WARN''}) Map.empty) = Inr (3, 1)" by simp
  from t b c d have 4: "process_line warn_job [''root'', ''run_pct_0'', ''stdout_0.log''] 0
            fresh_state line_vote
       = (None, fresh_state\<lparr>scanned := scanned fresh_state + 1\<rparr>)" by simp
  from 1 2 3 4 a b c reliable_io_ok show ?thesis by blast
qed


text \<open>
  The empty level set filters nothing: with \<^verbatim>\<open>--levels ","\<close> the set is empty, and the
  records of level INFO and WARN are written and counted.
\<close>

theorem empty_level_set_keeps_all:
  "parse_levels (Some '','') = Some {}
   \<and> str_of (dict_get (the (parse_line sample_loads line_vote)) ''level'') = ''INFO''
   \<and> fst (main io_ok sample_dumps sample_loads no_hints [''root''] (Some (Dir sample_root))
            (Some '','') ''filtered'' Map.empty)
       = Inr \<lparr>per_run = [(''run_pct_0'', 3, 2, [''root'', ''run_pct_0'', ''filtered''])],
               total_scanned = 3, total_kept = 2\<rparr>
   \<and> snd (main io_ok sample_dumps sample_loads no_hints [''root''] (Some (Dir sample_root))
            (Some '','') ''filtered'' Map.empty) (all_log sample_out)
       = Some [''2026-02-17T11:09:41.177185Z {\"event\":\"Vote\",\"epoch\":2,\"round\":51}''
                 @ [CHR 0x0A],
               ''2026-02-17T11:09:42.000001Z NewRound event triggered'' @ [CHR 0x0A]]"
  by code_simp


section \<open>Running twice\<close>

lemma process_run_dirs_delta:
  assumes "reliable e"
  shows "\<exists>R D. \<forall>fs. process_run_dirs e dmp lds lv sub rep fs rds = (Inr R, fs ++ D)"
proof (induction rds arbitrary: rep)
  case Nil
  have "\<forall>fs. process_run_dirs e dmp lds lv sub rep fs [] = (Inr rep, fs ++ Map.empty)" by simp
  then show ?case by blast
next
  case (Cons a rds)
  obtain rd es where a: "a = (rd, es)" by (cases a)
  let ?logs = "iter_log_files rd es"
  let ?K = "kept_records lds lv ?logs"
  let ?D1 = "sinks_of (rd @ [sub]) dmp (path_name rd) ?K"
  let ?rep = "\<lparr>per_run = per_run rep @ [(path_name rd, line_count ?logs, length ?K, rd @ [sub])],
             total_scanned = total_scanned rep + line_count ?logs,
             total_kept = total_kept rep + length ?K\<rparr>"
  from Cons.IH[of ?rep] obtain R D where
    IH: "\<forall>fs. process_run_dirs e dmp lds lv sub ?rep fs rds = (Inr R, fs ++ D)" by blast
  have "\<forall>fs. process_run_dirs e dmp lds lv sub rep fs (a # rds) = (Inr R, fs ++ (?D1 ++ D))"
    by (simp add: a filter_one_run_dir_reliable[OF assms] IH)
  then show ?case by blast
qed

lemma main_delta:
  assumes "reliable e"
  shows "\<exists>R D. \<forall>fs. main e dmp lds h p root levels sub fs = (R, fs ++ D)"
proof (cases "\<exists>es. root = Some (Dir es)")
  case True
  then obtain es where r: "root = Some (Dir es)" by blast
  from process_run_dirs_delta[OF assms, of dmp lds "parse_levels levels" sub
        "\<lparr>per_run = [], total_scanned = 0, total_kept = 0\<rparr>" "find_run_dirs h p es"]
  obtain R D where
    "\<forall>fs. process_run_dirs e dmp lds (parse_levels levels) sub
            \<lparr>per_run = [], total_scanned = 0, total_kept = 0\<rparr> fs (find_run_dirs h p es)
          = (Inr R, fs ++ D)" by blast
  then have "\<forall>fs. main e dmp lds h p root levels sub fs = (Inr R, fs ++ D)"
    by (simp add: main_def r)
  then show ?thesis by blast
next
  case False
  then have "\<forall>fs. main e dmp lds h p root levels sub fs = (Inl (SystemExit 2), fs ++ Map.empty)"
    by (auto simp: main_def split: option.splits fsnode.splits)
  then show ?thesis by blast
qed

lemma sink_names_not_logs:
  "node_of_name (path_name (all_jsonl od)) = None"
  "node_of_name (path_name (all_log od)) = None"
  "node_of_name (path_name (node_jsonl od i)) = None"
  "node_of_name (path_name (node_log od i)) = None"
  by (simp_all add: path_name_def all_jsonl_def all_log_def node_jsonl_def node_log_def
        node_of_name_def re_match_def NODE_FROM_FILENAME_RE_def lit_ci_def lower_ascii_def)


text \<open>
  C9.  While no sink operation raises, what \<^verbatim>\<open>main\<close> reports does not depend on the output
  files found before the run; a file is either left as it was found or gets a content
  that does not depend on what was found; and a second run on the files the first run
  left reports the same and leaves every file as it is.  The names of the sinks are not
  names of node logs, so the sinks of one run are not inputs of the next.
\<close>

theorem rerun_same:
  assumes "reliable e"
  shows "fst (main e dmp lds h p root levels sub fs) = fst (main e dmp lds h p root levels sub fs2)
    \<and> main e dmp lds h p root levels sub (snd (main e dmp lds h p root levels sub fs))
        = main e dmp lds h p root levels sub fs
    \<and> (\<forall>q. snd (main e dmp lds h p root levels sub fs) q
             = snd (main e dmp lds h p root levels sub fs2) q
           \<or> (snd (main e dmp lds h p root levels sub fs) q = fs q
              \<and> snd (main e dmp lds h p root levels sub fs2) q = fs2 q))
    \<and> node_of_name (path_name (all_jsonl od)) = None
    \<and> node_of_name (path_name (all_log od)) = None
    \<and> node_of_name (path_name (node_jsonl od i)) = None
    \<and> node_of_name (path_name (node_log od i)) = None"
proof -
  from main_delta[OF assms, of dmp lds h p root levels sub] obtain R D where
    M: "\<And>fs. main e dmp lds h p root levels sub fs = (R, fs ++ D)" by blast
  have 1: "fst (main e dmp lds h p root levels sub fs) = fst (main e dmp lds h p root levels sub fs2)"
    by (simp add: M)
  have "fs ++ D ++ D = fs ++ D"
    by (rule ext) (simp add: map_add_def split: option.splits)
  then have 2: "main e dmp lds h p root levels sub (snd (main e dmp lds h p root levels sub fs))
        = main e dmp lds h p root levels sub fs"
    by (simp add: M)
  have 3: "\<forall>q. snd (main e dmp lds h p root levels sub fs) q
             = snd (main e dmp lds h p root levels sub fs2) q
           \<or> (snd (main e dmp lds h p root levels sub fs) q = fs q
              \<and> snd (main e dmp lds h p root levels sub fs2) q = fs2 q)"
    by (simp add: M map_add_def split: option.splits)
  from 1 2 3 show ?thesis by (simp only: sink_names_not_logs simp_thms)
qed


theorem rerun_same_witness:
  "reliable io_ok
   \<and> main io_ok sample_dumps sample_loads no_hints [''root''] (Some (Dir sample_root)) None
        ''filtered''
        (snd (main io_ok sample_dumps sample_loads no_hints [''root''] (Some (Dir sample_root)) None
               ''filtered'' stale_files))
       = main io_ok sample_dumps sample_loads no_hints [''root''] (Some (Dir sample_root)) None
           ''filtered'' stale_files
   \<and> fst (main io_ok sample_dumps sample_loads no_hints [''root''] (Some (Dir sample_root)) None
            ''filtered'' stale_files)
       = fst (main io_ok sample_dumps sample_loads no_hints [''root''] (Some (Dir sample_root)) None
            ''filtered'' Map.empty)
   \<and> snd (main io_ok sample_dumps sample_loads no_hints [''root''] (Some (Dir sample_root)) None
            ''filtered'' stale_files) (all_log sample_out)
       = Some [''2026-02-17T11:09:41.177185Z {\"event\":\"Vote\",\"epoch\":2,\"round\":51}''
                 @ [CHR 0x0A],
               ''2026-02-17T11:09:42.000001Z NewRound event triggered'' @ [CHR 0x0A]]"
proof -
  have s: "snd (main io_ok sample_dumps sample_loads no_hints [''root''] (Some (Dir sample_root))
            None ''filtered'' stale_files) (all_log sample_out)
       = Some [''2026-02-17T11:09:41.177185Z {\"event\":\"Vote\",\"epoch\":2,\"round\":51}''
                 @ [CHR 0x0A],
               ''2026-02-17T11:09:42.000001Z NewRound event triggered'' @ [CHR 0x0A]]"
    by code_simp
  from rerun_same[OF reliable_io_ok, of sample_dumps sample_loads no_hints "[''root'']"
      "Some (Dir sample_root)" None "''filtered''" stale_files Map.empty] s reliable_io_ok
  show ?thesis by blast
qed


section \<open>Failing sinks\<close>












end
